theory Spec2Isabelle
  imports Complex_Main "HOL-Library.AList" "HOL-Library.FSet" "HOL-Library.Sublist"
begin

section \<open>The simulated environment\<close>

text \<open>
  The three engines call \<^verbatim>\<open>random.random()\<close> for every fault decision and
  \<^verbatim>\<open>time.time()\<close> for every timestamp. Both are modelled as oracles: an infinite
  stream of draws and an infinite stream of clock readings, with the position of the next
  unread element. Each call reads one element and advances the position. Nothing is
  assumed of either stream, so a statement proved for every \<open>world\<close> holds for every
  seed and for every scheduling of the process. A \<^verbatim>\<open>time.sleep\<close> that returns only
  lets the clock advance and has no other effect on the state; \<^verbatim>\<open>print\<close> is left
  out.
\<close>

record world =
  rnd :: "nat \<Rightarrow> real"
  rnd_pos :: nat
  clk :: "nat \<Rightarrow> real"
  clk_pos :: nat

definition random_random :: "world \<Rightarrow> real \<times> world" where
  "random_random w = (rnd w (rnd_pos w), w\<lparr>rnd_pos := Suc (rnd_pos w)\<rparr>)"

definition time_time :: "world \<Rightarrow> real \<times> world" where
  "time_time w = (clk w (clk_pos w), w\<lparr>clk_pos := Suc (clk_pos w)\<rparr>)"

text \<open>
  The exceptions of the modelled code. \<^verbatim>\<open>time.sleep(self.timeout)\<close> in the
  Stop-and-Wait sender raises \<^verbatim>\<open>ValueError\<close> for a negative argument (every other
  \<^verbatim>\<open>time.sleep\<close> has a positive constant argument), and the division \<^verbatim>\<open>/\<close> of
  two integers in \<^verbatim>\<open>get_statistics\<close> raises \<^verbatim>\<open>OverflowError\<close> when the quotient
  is beyond the range of a float and \<^verbatim>\<open>ZeroDivisionError\<close> when the divisor is 0.
\<close>

datatype error = ValueError string | OverflowError string | ZeroDivisionError string

section \<open>Frames\<close>

datatype FrameType = DATA | ACK | NAK

record Frame =
  seq_num :: int
  frame_type :: FrameType
  data :: string
  checksum :: int

text \<open>\<^verbatim>\<open>sum(ord(c) for c in self.data) % 256\<close>; a character of the model is a byte.\<close>

definition calculate_checksum :: "string \<Rightarrow> int" where
  "calculate_checksum d = sum_list (map of_char d) mod 256"

text \<open>The constructor call \<^verbatim>\<open>Frame(seq, FrameType.DATA, data)\<close> with its
  \<^verbatim>\<open>__post_init__\<close>.\<close>

definition data_frame :: "int \<Rightarrow> string \<Rightarrow> Frame" where
  "data_frame n d =
     \<lparr>seq_num = n, frame_type = DATA, data = d, checksum = calculate_checksum d\<rparr>"

text \<open>\<^verbatim>\<open>Frame.is_corrupted\<close>: one draw, corrupted below 0.1.\<close>

definition is_corrupted :: "world \<Rightarrow> bool \<times> world" where
  "is_corrupted w = (let (x, w1) = random_random w in (x < 0.1, w1))"

text \<open>\<^verbatim>\<open>send_ack\<close> is the same in the three receivers: one draw, the
  acknowledgment is lost below 0.1 and the method returns False.\<close>

definition send_ack :: "world \<Rightarrow> bool \<times> world" where
  "send_ack w = (let (x, w1) = random_random w in (\<not> x < 0.1, w1))"

section \<open>Stop-and-Wait\<close>

record StopAndWaitSender =
  sws_timeout :: real
  sws_seq_num :: int
  sws_waiting_for_ack :: bool
  sws_current_frame :: "Frame option"
  sws_retransmission_count :: int
  sws_total_transmissions :: int

record StopAndWaitReceiver =
  swr_expected_seq_num :: int
  swr_received_frames :: "string list"

definition StopAndWaitSender_init :: "real \<Rightarrow> StopAndWaitSender" where
  "StopAndWaitSender_init t =
     \<lparr>sws_timeout = t, sws_seq_num = 0, sws_waiting_for_ack = False,
      sws_current_frame = None, sws_retransmission_count = 0,
      sws_total_transmissions = 0\<rparr>"

definition StopAndWaitReceiver_init :: StopAndWaitReceiver where
  "StopAndWaitReceiver_init = \<lparr>swr_expected_seq_num = 0, swr_received_frames = []\<rparr>"

text \<open>
  \<^verbatim>\<open>StopAndWaitReceiver.receive_frame\<close>. The frame is lost below 0.2. In both
  branches that reach \<^verbatim>\<open>send_ack\<close> the result of \<^verbatim>\<open>send_ack\<close> is dropped and
  the method returns True.
\<close>

definition sw_receive_frame ::
  "Frame \<Rightarrow> StopAndWaitReceiver \<Rightarrow> world \<Rightarrow> bool \<times> StopAndWaitReceiver \<times> world" where
  "sw_receive_frame f r w =
     (let (x, w1) = random_random w in
      if x < 0.2 then (False, r, w1)
      else let (c, w2) = is_corrupted w1 in
        if c then (False, r, w2)
        else if seq_num f = swr_expected_seq_num r then
          (let r1 = r\<lparr>swr_received_frames := swr_received_frames r @ [data f],
                       swr_expected_seq_num := 1 - swr_expected_seq_num r\<rparr>;
               (a, w3) = send_ack w2
           in (True, r1, w3))
        else
          (let (a, w3) = send_ack w2 in (True, r, w3)))"

text \<open>
  The \<^verbatim>\<open>while\<close> loop of \<^verbatim>\<open>send_frame\<close>; the counter bounds it. After an attempt
  without acknowledgment the sender calls \<^verbatim>\<open>time.sleep(self.timeout)\<close>, which raises
  \<^verbatim>\<open>ValueError\<close> when the timeout is negative: the exception leaves the loop and
  \<^verbatim>\<open>send_frame\<close> with the sender, the receiver and the environment as they are at
  that point. The first component of the result is the exception raised (\<open>Inl\<close>) or
  the value returned (\<open>Inr\<close>).
\<close>

function sw_send_loop ::
  "Frame \<Rightarrow> StopAndWaitSender \<Rightarrow> StopAndWaitReceiver \<Rightarrow> world
     \<Rightarrow> (error + bool) \<times> StopAndWaitSender \<times> StopAndWaitReceiver \<times> world" where
  "sw_send_loop f s r w =
     (if sws_waiting_for_ack s \<and> sws_retransmission_count s < 5 then
        (let s1 = s\<lparr>sws_total_transmissions := sws_total_transmissions s + 1\<rparr>;
             res = sw_receive_frame f r w
         in if fst res then
              (Inr True, s1\<lparr>sws_waiting_for_ack := False, sws_seq_num := 1 - sws_seq_num s1\<rparr>,
               fst (snd res), snd (snd res))
            else
              (let s2 = s1\<lparr>sws_retransmission_count := sws_retransmission_count s1 + 1\<rparr>
               in if sws_timeout s2 < 0 then
                    (Inl (ValueError ''sleep length must be non-negative''), s2,
                     fst (snd res), snd (snd res))
                  else sw_send_loop f s2 (fst (snd res)) (snd (snd res))))
      else (Inr False, s, r, w))"
  by pat_completeness auto
termination
  by (relation "measure (\<lambda>(f, s, r, w). nat (5 - sws_retransmission_count s))") auto

declare sw_send_loop.simps [simp del]

definition sw_send_frame ::
  "string \<Rightarrow> StopAndWaitSender \<Rightarrow> StopAndWaitReceiver \<Rightarrow> world
     \<Rightarrow> (error + bool) \<times> StopAndWaitSender \<times> StopAndWaitReceiver \<times> world" where
  "sw_send_frame d s r w =
     (let f = data_frame (sws_seq_num s) d;
          s1 = s\<lparr>sws_current_frame := Some f, sws_waiting_for_ack := True,
                 sws_retransmission_count := 0\<rparr>
      in sw_send_loop f s1 r w)"

text \<open>The driver of every caller:
  \<^verbatim>\<open>for data in test_data: sender.send_frame(data, receiver)\<close>. An exception of
  \<^verbatim>\<open>send_frame\<close> ends the loop; the first component of the result is the exception, if
  one was raised.\<close>

fun sw_send_all ::
  "string list \<Rightarrow> StopAndWaitSender \<Rightarrow> StopAndWaitReceiver \<Rightarrow> world
     \<Rightarrow> error option \<times> StopAndWaitSender \<times> StopAndWaitReceiver \<times> world" where
  "sw_send_all [] s r w = (None, s, r, w)"
| "sw_send_all (d # ds) s r w =
     (let res = sw_send_frame d s r w
      in case fst res of
           Inl e \<Rightarrow> (Some e, snd res)
         | Inr ok \<Rightarrow>
             sw_send_all ds (fst (snd res)) (fst (snd (snd res))) (snd (snd (snd res))))"

subsection \<open>Statistics\<close>

text \<open>
  \<^verbatim>\<open>get_statistics\<close> returns a dictionary from key strings to values, an integer
  count or a string; it is modelled as the list of its items in the order of the
  dictionary display.

  The efficiency is computed in Python's floats, the binary64 numbers. A finite float is
  a sign and a magnitude, a rational number; \<open>round_binary64\<close> rounds a magnitude to
  the nearest binary64 number, the tie going to the even significand: the significand
  has 53 bits from the leading bit of the number down, and not below \<open>2^-1074\<close> for
  the subnormal numbers. A result of \<open>2^1024\<close> or more has no finite float.
\<close>

datatype py_value = PyInt int | PyStr string

datatype py_float = Float bool rat | Inf bool | NaN

text \<open>\<^verbatim>\<open>int.bit_length\<close>.\<close>

function bit_length :: "nat \<Rightarrow> nat" where
  "bit_length n = (if n = 0 then 0 else Suc (bit_length (n div 2)))"
  by pat_completeness auto
termination
  by (relation "measure (\<lambda>n. n)") auto

declare bit_length.simps [simp del]

definition pow2 :: "int \<Rightarrow> rat" where
  "pow2 e = (if 0 \<le> e then 2 ^ nat e else 1 / 2 ^ nat (- e))"

text \<open>The exponent of the leading bit of a positive rational number.\<close>

definition ilog2 :: "rat \<Rightarrow> int" where
  "ilog2 x =
     (let d = int (bit_length (nat (fst (quotient_of x))))
                - int (bit_length (nat (snd (quotient_of x))))
      in if pow2 d \<le> x then d else d - 1)"

definition round_half_even :: "rat \<Rightarrow> int" where
  "round_half_even x =
     (let f = \<lfloor>x\<rfloor>; d = x - of_int f
      in if d < 1 / 2 then f else if 1 / 2 < d then f + 1 else if even f then f else f + 1)"

definition round_binary64 :: "rat \<Rightarrow> rat option" where
  "round_binary64 x =
     (if x = 0 then Some 0
      else
        (let u = max (ilog2 x - 52) (- 1074);
             y = of_int (round_half_even (x / pow2 u)) * pow2 u
         in if pow2 1024 \<le> y then None else Some y))"

text \<open>
  The division \<^verbatim>\<open>a / b\<close> of two integers gives the float nearest to the quotient, or
  raises. The product of two floats is the float nearest to the product, or an infinity.
\<close>

definition int_truediv :: "int \<Rightarrow> int \<Rightarrow> error + py_float" where
  "int_truediv a b =
     (if b = 0 then Inl (ZeroDivisionError ''division by zero'')
      else
        (case round_binary64 \<bar>of_int a / of_int b\<bar> of
           None \<Rightarrow> Inl (OverflowError ''integer division result too large for a float'')
         | Some y \<Rightarrow> Inr (Float ((a < 0) \<noteq> (b < 0)) y)))"

fun float_mul :: "py_float \<Rightarrow> py_float \<Rightarrow> py_float" where
  "float_mul (Float s x) (Float t y) =
     (case round_binary64 (x * y) of None \<Rightarrow> Inf (s \<noteq> t) | Some z \<Rightarrow> Float (s \<noteq> t) z)"
| "float_mul (Float s x) (Inf t) = (if x = 0 then NaN else Inf (s \<noteq> t))"
| "float_mul (Inf s) (Float t y) = (if y = 0 then NaN else Inf (s \<noteq> t))"
| "float_mul (Inf s) (Inf t) = Inf (s \<noteq> t)"
| "float_mul NaN y = NaN"
| "float_mul x NaN = NaN"

text \<open>
  The format \<^verbatim>\<open>f"{x:.1f}"\<close>: the float rounded to one decimal place, the tie going to
  the even digit, written with its sign, the decimal digits of its integer part, a point
  and one digit.
\<close>

function str_nat :: "nat \<Rightarrow> string" where
  "str_nat n =
     (if n < 10 then [''0123456789'' ! n]
      else str_nat (n div 10) @ [''0123456789'' ! (n mod 10)])"
  by pat_completeness auto
termination
  by (relation "measure (\<lambda>n. n)") auto

declare str_nat.simps [simp del]

fun format_1f :: "py_float \<Rightarrow> string" where
  "format_1f (Float s x) =
     (let t = nat (round_half_even (x * 10))
      in (if s then ''-'' else '''') @ str_nat (t div 10) @ ''.'' @ str_nat (t mod 10))"
| "format_1f (Inf s) = (if s then ''-inf'' else ''inf'')"
| "format_1f NaN = ''nan''"

text \<open>
  \<^verbatim>\<open>StopAndWaitSender.get_statistics\<close>: two keys, the efficiency being
  \<^verbatim>\<open>f"{(1/self.total_transmissions)*100:.1f}%"\<close>.
\<close>

definition sw_get_statistics ::
  "StopAndWaitSender \<Rightarrow> error + (string \<times> py_value) list" where
  "sw_get_statistics s =
     (if sws_total_transmissions s > 0 then
        (case int_truediv 1 (sws_total_transmissions s) of
           Inl e \<Rightarrow> Inl e
         | Inr q \<Rightarrow>
             Inr [(''total_transmissions'', PyInt (sws_total_transmissions s)),
                  (''efficiency'', PyStr (format_1f (float_mul q (Float False 100)) @ ''%''))])
      else
        Inr [(''total_transmissions'', PyInt (sws_total_transmissions s)),
             (''efficiency'', PyStr ''0%'')])"

section \<open>Sender windows\<close>

text \<open>
  A window entry is the dictionary \<^verbatim>\<open>{'frame': ..., 'timestamp': ..., 'data': ...}\<close>.
  The window itself is a Python \<^verbatim>\<open>dict\<close> keyed by the unbounded sequence counter; it
  is an association list in insertion order, which is the order Python iterates in.
  \<open>AList.update\<close> overwrites in place or appends, \<open>AList.delete\<close> removes the key.
\<close>

record window_entry =
  we_frame :: Frame
  we_timestamp :: real
  we_data :: string

definition py_max :: "int list \<Rightarrow> int" where
  "py_max xs = fold max (tl xs) (hd xs)"

text \<open>Python's slice \<^verbatim>\<open>xs[:n]\<close>; a negative \<open>n\<close> counts from the end.\<close>

definition py_take :: "int \<Rightarrow> 'a list \<Rightarrow> 'a list" where
  "py_take n xs = (if 0 \<le> n then take (nat n) xs else take (nat (int (length xs) + n)) xs)"

section \<open>Go-Back-N\<close>

record GoBackNSender =
  gbs_window_size :: int
  gbs_timeout :: real
  gbs_base :: int
  gbs_next_seq_num :: int
  gbs_window :: "(int \<times> window_entry) list"
  gbs_data_buffer :: "string list"
  gbs_max_seq_num :: int
  gbs_total_transmissions :: int
  gbs_retransmissions :: int
  gbs_timer_active :: bool
  gbs_max_retransmissions :: int
  gbs_total_retransmission_count :: int

record GoBackNReceiver =
  gbr_expected_seq_num :: int
  gbr_max_seq_num :: int
  gbr_received_frames :: "string list"
  gbr_total_frames_received :: int
  gbr_frames_discarded :: int

definition GoBackNSender_init :: "int \<Rightarrow> real \<Rightarrow> GoBackNSender" where
  "GoBackNSender_init ws t =
     \<lparr>gbs_window_size = ws, gbs_timeout = t, gbs_base = 0, gbs_next_seq_num = 0,
      gbs_window = [], gbs_data_buffer = [], gbs_max_seq_num = 8,
      gbs_total_transmissions = 0, gbs_retransmissions = 0, gbs_timer_active = False,
      gbs_max_retransmissions = 10, gbs_total_retransmission_count = 0\<rparr>"

definition GoBackNReceiver_init :: GoBackNReceiver where
  "GoBackNReceiver_init =
     \<lparr>gbr_expected_seq_num = 0, gbr_max_seq_num = 8, gbr_received_frames = [],
      gbr_total_frames_received = 0, gbr_frames_discarded = 0\<rparr>"

definition gbn_add_data :: "string list \<Rightarrow> GoBackNSender \<Rightarrow> GoBackNSender" where
  "gbn_add_data ds s = s\<lparr>gbs_data_buffer := gbs_data_buffer s @ ds\<rparr>"

definition gbn_can_send :: "GoBackNSender \<Rightarrow> bool" where
  "gbn_can_send s \<longleftrightarrow>
     gbs_next_seq_num s < gbs_base s + gbs_window_size s \<and> length (gbs_data_buffer s) > 0"

definition gbn_is_in_range :: "int \<Rightarrow> int \<Rightarrow> int \<Rightarrow> bool" where
  "gbn_is_in_range n start end' =
     (if start \<le> end' then start \<le> n \<and> n \<le> end' else n \<ge> start \<or> n \<le> end')"

definition gbn_process_ack :: "int \<Rightarrow> GoBackNSender \<Rightarrow> GoBackNSender" where
  "gbn_process_ack ack_num s =
     (let frames_to_remove =
            filter (\<lambda>k. gbn_is_in_range k (gbs_base s) ack_num) (map fst (gbs_window s));
          s1 = s\<lparr>gbs_window := fold AList.delete frames_to_remove (gbs_window s)\<rparr>
      in if frames_to_remove \<noteq> [] then s1\<lparr>gbs_base := py_max frames_to_remove + 1\<rparr>
         else s1)"

definition gbn_receive_frame ::
  "Frame \<Rightarrow> GoBackNReceiver \<Rightarrow> world \<Rightarrow> int option \<times> GoBackNReceiver \<times> world" where
  "gbn_receive_frame f r w =
     (let r0 = r\<lparr>gbr_total_frames_received := gbr_total_frames_received r + 1\<rparr>;
          (x, w1) = random_random w in
      if x < 0.15 then (None, r0, w1)
      else let (c, w2) = is_corrupted w1 in
        if c then (None, r0\<lparr>gbr_frames_discarded := gbr_frames_discarded r0 + 1\<rparr>, w2)
        else if seq_num f = gbr_expected_seq_num r0 mod gbr_max_seq_num r0 then
          (let r1 = r0\<lparr>gbr_received_frames := gbr_received_frames r0 @ [data f],
                        gbr_expected_seq_num := gbr_expected_seq_num r0 + 1\<rparr>;
               (a, w3) = send_ack w2
           in (if a then Some (seq_num f) else None, r1, w3))
        else
          (let r1 = r0\<lparr>gbr_frames_discarded := gbr_frames_discarded r0 + 1\<rparr> in
           if gbr_expected_seq_num r1 > 0 then
             (let last_correct_frame = (gbr_expected_seq_num r1 - 1) mod gbr_max_seq_num r1;
                  (a, w3) = send_ack w2
              in (if a then Some last_correct_frame else None, r1, w3))
           else (None, r1, w2)))"

definition gbn_ack_opt :: "int option \<Rightarrow> GoBackNSender \<Rightarrow> GoBackNSender" where
  "gbn_ack_opt a s = (case a of None \<Rightarrow> s | Some n \<Rightarrow> gbn_process_ack n s)"

text \<open>One pass through the body of the inner \<^verbatim>\<open>while self.can_send()\<close> loop.\<close>

definition gbn_send_one ::
  "GoBackNSender \<times> GoBackNReceiver \<times> world \<Rightarrow> GoBackNSender \<times> GoBackNReceiver \<times> world" where
  "gbn_send_one = (\<lambda>(s, r, w).
     (let d = hd (gbs_data_buffer s);
          s1 = s\<lparr>gbs_data_buffer := tl (gbs_data_buffer s)\<rparr>;
          f = data_frame (gbs_next_seq_num s1 mod gbs_max_seq_num s1) d;
          (t, w1) = time_time w;
          s2 = s1\<lparr>gbs_window :=
                   AList.update (gbs_next_seq_num s1)
                     \<lparr>we_frame = f, we_timestamp = t, we_data = d\<rparr> (gbs_window s1),
                 gbs_total_transmissions := gbs_total_transmissions s1 + 1\<rparr>;
          (a, r1, w2) = gbn_receive_frame f r w1;
          s3 = gbn_ack_opt a s2
      in (s3\<lparr>gbs_next_seq_num := gbs_next_seq_num s3 + 1\<rparr>, r1, w2)))"

lemma gbn_process_ack_data_buffer [simp]:
  "gbs_data_buffer (gbn_process_ack a s) = gbs_data_buffer s"
  by (simp add: gbn_process_ack_def Let_def)

lemma gbn_ack_opt_data_buffer [simp]:
  "gbs_data_buffer (gbn_ack_opt a s) = gbs_data_buffer s"
  by (simp add: gbn_ack_opt_def split: option.splits)

lemma gbn_send_one_data_buffer:
  "gbs_data_buffer (fst (gbn_send_one (s, r, w))) = tl (gbs_data_buffer s)"
  by (simp add: gbn_send_one_def Let_def split: prod.splits)

function gbn_send_new ::
  "GoBackNSender \<times> GoBackNReceiver \<times> world \<Rightarrow> GoBackNSender \<times> GoBackNReceiver \<times> world" where
  "gbn_send_new st =
     (if gbn_can_send (fst st) then gbn_send_new (gbn_send_one st) else st)"
  by pat_completeness auto
termination
proof (relation "measure (\<lambda>st. length (gbs_data_buffer (fst st)))")
  show "wf (measure (\<lambda>st. length (gbs_data_buffer (fst st))))" by simp
next
  fix st :: "GoBackNSender \<times> GoBackNReceiver \<times> world"
  assume c: "gbn_can_send (fst st)"
  obtain s r w where st: "st = (s, r, w)" by (cases st) auto
  from c st have "gbs_data_buffer s \<noteq> []" by (auto simp: gbn_can_send_def)
  then show "(gbn_send_one st, st) \<in> measure (\<lambda>st. length (gbs_data_buffer (fst st)))"
    by (simp add: st gbn_send_one_data_buffer)
qed

declare gbn_send_new.simps [simp del]

text \<open>The \<^verbatim>\<open>for\<close> loop of \<^verbatim>\<open>go_back_n_retransmit\<close>, with its
  \<^verbatim>\<open>continue\<close> and its \<^verbatim>\<open>break\<close>.\<close>

fun gbn_retransmit_loop ::
  "int list \<Rightarrow> GoBackNSender \<Rightarrow> GoBackNReceiver \<Rightarrow> world
     \<Rightarrow> GoBackNSender \<times> GoBackNReceiver \<times> world" where
  "gbn_retransmit_loop [] s r w = (s, r, w)"
| "gbn_retransmit_loop (k # ks) s r w =
     (case map_of (gbs_window s) k of
        None \<Rightarrow> gbn_retransmit_loop ks s r w
      | Some e \<Rightarrow>
          (let s1 = s\<lparr>gbs_total_transmissions := gbs_total_transmissions s + 1,
                       gbs_retransmissions := gbs_retransmissions s + 1,
                       gbs_total_retransmission_count :=
                         gbs_total_retransmission_count s + 1\<rparr>
           in if gbs_total_retransmission_count s1 \<ge> gbs_max_retransmissions s1
              then (s1, r, w)
              else
                (let tw = time_time w;
                     s2 = s1\<lparr>gbs_window :=
                              AList.update k (e\<lparr>we_timestamp := fst tw\<rparr>) (gbs_window s1)\<rparr>;
                     res = gbn_receive_frame (we_frame e) r (snd tw);
                     s3 = gbn_ack_opt (fst res) s2
                 in gbn_retransmit_loop ks s3 (fst (snd res)) (snd (snd res)))))"

definition go_back_n_retransmit ::
  "int \<Rightarrow> GoBackNSender \<Rightarrow> GoBackNReceiver \<Rightarrow> world
     \<Rightarrow> GoBackNSender \<times> GoBackNReceiver \<times> world" where
  "go_back_n_retransmit failed_seq_num s r w =
     (if gbs_total_retransmission_count s \<ge> gbs_max_retransmissions s then (s, r, w)
      else
        (let frames_to_retransmit =
               py_take (gbs_window_size s)
                 (filter (\<lambda>k. k \<ge> failed_seq_num) (sort (map fst (gbs_window s))))
         in gbn_retransmit_loop frames_to_retransmit s r w))"

definition gbn_check_timeouts ::
  "GoBackNSender \<times> GoBackNReceiver \<times> world \<Rightarrow> GoBackNSender \<times> GoBackNReceiver \<times> world" where
  "gbn_check_timeouts = (\<lambda>(s, r, w).
     (let (current_time, w1) = time_time w in
      if gbs_window s = [] then (s, r, w1)
      else
        (let oldest_unacked = min_list (map fst (gbs_window s)) in
         case map_of (gbs_window s) oldest_unacked of
           None \<Rightarrow> (s, r, w1)
         | Some e \<Rightarrow>
             if current_time - we_timestamp e > gbs_timeout s
             then go_back_n_retransmit oldest_unacked s r w1
             else (s, r, w1))))"

text \<open>
  The main loop of \<^verbatim>\<open>GoBackNSender.send_frames\<close>, with its cap of 500 iterations
  in the loop condition. The result carries the final iteration count.
\<close>

definition gbn_iteration ::
  "nat \<Rightarrow> GoBackNSender \<times> GoBackNReceiver \<times> world \<Rightarrow> GoBackNSender \<times> GoBackNReceiver \<times> world"
  where
  "gbn_iteration i st =
     (let st1 = gbn_send_new st
      in if i mod 3 = 0 then gbn_check_timeouts st1 else st1)"

function gbn_send_loop ::
  "nat \<Rightarrow> GoBackNSender \<times> GoBackNReceiver \<times> world
     \<Rightarrow> nat \<times> GoBackNSender \<times> GoBackNReceiver \<times> world" where
  "gbn_send_loop iteration_count st =
     (if (gbs_data_buffer (fst st) \<noteq> [] \<or> gbs_window (fst st) \<noteq> []) \<and> iteration_count < 500
      then
        (let i = iteration_count + 1;
             st2 = gbn_iteration i st
         in if gbs_window (fst st2) = [] \<and> gbs_data_buffer (fst st2) = []
            then (i, st2)
            else gbn_send_loop i st2)
      else (iteration_count, st))"
  by pat_completeness auto
termination
  by (relation "measure (\<lambda>(i, st). 500 - i)") auto

declare gbn_send_loop.simps [simp del]

definition gbn_send_frames ::
  "GoBackNSender \<Rightarrow> GoBackNReceiver \<Rightarrow> world
     \<Rightarrow> nat \<times> GoBackNSender \<times> GoBackNReceiver \<times> world" where
  "gbn_send_frames s r w = gbn_send_loop 0 (s, r, w)"

text \<open>
  \<^verbatim>\<open>GoBackNSender.get_statistics\<close>: three keys, the efficiency being
  \<^verbatim>\<open>f"{((total - retransmissions) / total * 100):.1f}%"\<close>.
\<close>

definition gbn_get_statistics :: "GoBackNSender \<Rightarrow> error + (string \<times> py_value) list" where
  "gbn_get_statistics s =
     (if gbs_total_transmissions s > 0 then
        (case int_truediv (gbs_total_transmissions s - gbs_retransmissions s)
                (gbs_total_transmissions s) of
           Inl e \<Rightarrow> Inl e
         | Inr q \<Rightarrow>
             Inr [(''total_transmissions'', PyInt (gbs_total_transmissions s)),
                  (''retransmissions'', PyInt (gbs_retransmissions s)),
                  (''efficiency'', PyStr (format_1f (float_mul q (Float False 100)) @ ''%''))])
      else
        Inr [(''total_transmissions'', PyInt (gbs_total_transmissions s)),
             (''retransmissions'', PyInt (gbs_retransmissions s)),
             (''efficiency'', PyStr ''0%'')])"

section \<open>Selective Repeat\<close>

text \<open>
  \<^verbatim>\<open>ack_received\<close> is a Python \<^verbatim>\<open>set\<close>, a finite set here. The receiver's
  \<^verbatim>\<open>buffer\<close> and the sender's \<^verbatim>\<open>individual_timers\<close> are dictionaries.
\<close>

record SelectiveRepeatSender =
  srs_window_size :: int
  srs_timeout :: real
  srs_base :: int
  srs_next_seq_num :: int
  srs_window :: "(int \<times> window_entry) list"
  srs_ack_received :: "int fset"
  srs_data_buffer :: "string list"
  srs_max_seq_num :: int
  srs_total_transmissions :: int
  srs_retransmissions :: int
  srs_individual_timers :: "(int \<times> real) list"

record SelectiveRepeatReceiver =
  srr_window_size :: int
  srr_base :: int
  srr_max_seq_num :: int
  srr_buffer :: "(int \<times> string) list"
  srr_received_frames :: "string list"
  srr_total_frames_received :: int
  srr_frames_discarded :: int
  srr_duplicate_frames :: int

definition SelectiveRepeatSender_init :: "int \<Rightarrow> real \<Rightarrow> SelectiveRepeatSender" where
  "SelectiveRepeatSender_init ws t =
     \<lparr>srs_window_size = ws, srs_timeout = t, srs_base = 0, srs_next_seq_num = 0,
      srs_window = [], srs_ack_received = {||}, srs_data_buffer = [], srs_max_seq_num = 8,
      srs_total_transmissions = 0, srs_retransmissions = 0, srs_individual_timers = []\<rparr>"

definition SelectiveRepeatReceiver_init :: "int \<Rightarrow> SelectiveRepeatReceiver" where
  "SelectiveRepeatReceiver_init ws =
     \<lparr>srr_window_size = ws, srr_base = 0, srr_max_seq_num = 8, srr_buffer = [],
      srr_received_frames = [], srr_total_frames_received = 0, srr_frames_discarded = 0,
      srr_duplicate_frames = 0\<rparr>"

definition sr_add_data :: "string list \<Rightarrow> SelectiveRepeatSender \<Rightarrow> SelectiveRepeatSender" where
  "sr_add_data ds s = s\<lparr>srs_data_buffer := srs_data_buffer s @ ds\<rparr>"

definition sr_can_send :: "SelectiveRepeatSender \<Rightarrow> bool" where
  "sr_can_send s \<longleftrightarrow>
     srs_next_seq_num s < srs_base s + srs_window_size s \<and> length (srs_data_buffer s) > 0"

subsection \<open>The receiver\<close>

definition is_in_window :: "SelectiveRepeatReceiver \<Rightarrow> int \<Rightarrow> bool" where
  "is_in_window r n =
     (let window_end = (srr_base r + srr_window_size r - 1) mod srr_max_seq_num r in
      if srr_base r mod srr_max_seq_num r \<le> window_end
      then srr_base r mod srr_max_seq_num r \<le> n \<and> n \<le> window_end
      else n \<ge> srr_base r mod srr_max_seq_num r \<or> n \<le> window_end)"

definition is_already_delivered :: "SelectiveRepeatReceiver \<Rightarrow> int \<Rightarrow> bool" where
  "is_already_delivered r n \<longleftrightarrow> n < srr_base r mod srr_max_seq_num r"

text \<open>
  \<^verbatim>\<open>deliver_frames\<close>: the loop pops the buffer at \<^verbatim>\<open>base % max_seq_num\<close>. The
  list \<^verbatim>\<open>delivered_acks\<close> that the method returns is never appended to, so the
  method returns the empty list and the model returns the receiver only.
\<close>

function deliver_frames :: "SelectiveRepeatReceiver \<Rightarrow> SelectiveRepeatReceiver" where
  "deliver_frames r =
     (case map_of (srr_buffer r) (srr_base r mod srr_max_seq_num r) of
        None \<Rightarrow> r
      | Some d \<Rightarrow>
          deliver_frames
            (r\<lparr>srr_received_frames := srr_received_frames r @ [d],
               srr_buffer := AList.delete (srr_base r mod srr_max_seq_num r) (srr_buffer r),
               srr_base := srr_base r + 1\<rparr>))"
  by pat_completeness auto
termination
proof (relation "measure (\<lambda>r. length (srr_buffer r))")
  show "wf (measure (\<lambda>r. length (srr_buffer r)))" by simp
next
  fix r :: SelectiveRepeatReceiver and d
  assume "map_of (srr_buffer r) (srr_base r mod srr_max_seq_num r) = Some d"
  then have "(srr_base r mod srr_max_seq_num r, d) \<in> set (srr_buffer r)"
    by (rule map_of_SomeD)
  then have "length (AList.delete (srr_base r mod srr_max_seq_num r) (srr_buffer r))
               < length (srr_buffer r)"
    unfolding AList.delete_eq by (induction "srr_buffer r") (auto simp: length_filter_less less_Suc_eq_le)
  then show "(r\<lparr>srr_received_frames := srr_received_frames r @ [d],
               srr_buffer := AList.delete (srr_base r mod srr_max_seq_num r) (srr_buffer r),
               srr_base := srr_base r + 1\<rparr>, r) \<in> measure (\<lambda>r. length (srr_buffer r))"
    by simp
qed

declare deliver_frames.simps [simp del]

definition sr_receive_frame ::
  "Frame \<Rightarrow> SelectiveRepeatReceiver \<Rightarrow> world
     \<Rightarrow> int list option \<times> SelectiveRepeatReceiver \<times> world" where
  "sr_receive_frame f r w =
     (let r0 = r\<lparr>srr_total_frames_received := srr_total_frames_received r + 1\<rparr>;
          (x, w1) = random_random w in
      if x < 0.15 then (None, r0, w1)
      else let (c, w2) = is_corrupted w1 in
        if c then (None, r0\<lparr>srr_frames_discarded := srr_frames_discarded r0 + 1\<rparr>, w2)
        else if is_in_window r0 (seq_num f) then
          (let r1 = (if map_of (srr_buffer r0) (seq_num f) \<noteq> None
                     then r0\<lparr>srr_duplicate_frames := srr_duplicate_frames r0 + 1\<rparr>
                     else r0\<lparr>srr_buffer :=
                              AList.update (seq_num f) (data f) (srr_buffer r0)\<rparr>);
               (a, w3) = send_ack w2;
               ack_nums = (if a then [seq_num f] else [])
           in (Some (ack_nums @ []), deliver_frames r1, w3))
        else if is_already_delivered r0 (seq_num f) then
          (let (a, w3) = send_ack w2
           in (if a then Some [seq_num f] else None, r0, w3))
        else (None, r0\<lparr>srr_frames_discarded := srr_frames_discarded r0 + 1\<rparr>, w2))"

subsection \<open>The sender\<close>

definition sr_process_ack :: "int \<Rightarrow> SelectiveRepeatSender \<Rightarrow> SelectiveRepeatSender" where
  "sr_process_ack ack_num s =
     (let s1 = s\<lparr>srs_ack_received := finsert ack_num (srs_ack_received s)\<rparr>;
          seq_nums_to_remove =
            filter (\<lambda>k. k mod srs_max_seq_num s1 = ack_num) (map fst (srs_window s1))
      in s1\<lparr>srs_window := fold AList.delete seq_nums_to_remove (srs_window s1),
            srs_individual_timers :=
              fold AList.delete seq_nums_to_remove (srs_individual_timers s1)\<rparr>)"

text \<open>\<^verbatim>\<open>if ack_nums: for ack_num in ack_nums: self.process_ack(ack_num)\<close>\<close>

definition sr_process_acks ::
  "int list option \<Rightarrow> SelectiveRepeatSender \<Rightarrow> SelectiveRepeatSender" where
  "sr_process_acks a s = (case a of None \<Rightarrow> s | Some ns \<Rightarrow> fold sr_process_ack ns s)"

function slide_window :: "SelectiveRepeatSender \<Rightarrow> SelectiveRepeatSender" where
  "slide_window s =
     (if srs_base s mod srs_max_seq_num s |\<in>| srs_ack_received s
      then slide_window
             (s\<lparr>srs_ack_received :=
                  srs_ack_received s |-| {|srs_base s mod srs_max_seq_num s|},
                srs_base := srs_base s + 1\<rparr>)
      else s)"
  by pat_completeness auto
termination
proof (relation "measure (\<lambda>s. fcard (srs_ack_received s))")
  show "wf (measure (\<lambda>s. fcard (srs_ack_received s)))" by simp
next
  fix s :: SelectiveRepeatSender
  assume "srs_base s mod srs_max_seq_num s |\<in>| srs_ack_received s"
  then have "fcard (srs_ack_received s |-| {|srs_base s mod srs_max_seq_num s|})
               < fcard (srs_ack_received s)"
    by (rule fcard_fminus1_less)
  then show "(s\<lparr>srs_ack_received :=
                  srs_ack_received s |-| {|srs_base s mod srs_max_seq_num s|},
                srs_base := srs_base s + 1\<rparr>, s) \<in> measure (\<lambda>s. fcard (srs_ack_received s))"
    by (simp del: fcard_fminus_finsert)
qed

declare slide_window.simps [simp del]

definition selective_retransmit ::
  "int \<Rightarrow> SelectiveRepeatSender \<times> SelectiveRepeatReceiver \<times> world
     \<Rightarrow> SelectiveRepeatSender \<times> SelectiveRepeatReceiver \<times> world" where
  "selective_retransmit k = (\<lambda>(s, r, w).
     (case map_of (srs_window s) k of
        None \<Rightarrow> (s, r, w)
      | Some e \<Rightarrow>
          (let s1 = s\<lparr>srs_total_transmissions := srs_total_transmissions s + 1,
                       srs_retransmissions := srs_retransmissions s + 1\<rparr>;
               (t1, w1) = time_time w;
               s2 = s1\<lparr>srs_window :=
                        AList.update k (e\<lparr>we_timestamp := t1\<rparr>) (srs_window s1)\<rparr>;
               (t2, w2) = time_time w1;
               s3 = s2\<lparr>srs_individual_timers :=
                        AList.update k t2 (srs_individual_timers s2)\<rparr>;
               (a, r1, w3) = sr_receive_frame (we_frame e) r w2
           in (sr_process_acks a s3, r1, w3))))"

text \<open>The second \<^verbatim>\<open>for\<close> loop of \<^verbatim>\<open>check_individual_timeouts\<close>.\<close>

fun sr_retransmit_loop ::
  "int list \<Rightarrow> SelectiveRepeatSender \<times> SelectiveRepeatReceiver \<times> world
     \<Rightarrow> SelectiveRepeatSender \<times> SelectiveRepeatReceiver \<times> world" where
  "sr_retransmit_loop [] st = st"
| "sr_retransmit_loop (k # ks) st =
     (if map_of (srs_window (fst st)) k \<noteq> None
      then sr_retransmit_loop ks (selective_retransmit k st)
      else sr_retransmit_loop ks st)"

definition check_individual_timeouts ::
  "SelectiveRepeatSender \<times> SelectiveRepeatReceiver \<times> world
     \<Rightarrow> SelectiveRepeatSender \<times> SelectiveRepeatReceiver \<times> world" where
  "check_individual_timeouts = (\<lambda>(s, r, w).
     (let (current_time, w1) = time_time w;
          frames_to_retransmit =
            map fst (filter (\<lambda>(k, timestamp). current_time - timestamp > srs_timeout s)
                       (srs_individual_timers s))
      in sr_retransmit_loop frames_to_retransmit (s, r, w1)))"

text \<open>One pass through the body of the inner \<^verbatim>\<open>while self.can_send()\<close> loop.\<close>

definition sr_send_one ::
  "SelectiveRepeatSender \<times> SelectiveRepeatReceiver \<times> world
     \<Rightarrow> SelectiveRepeatSender \<times> SelectiveRepeatReceiver \<times> world" where
  "sr_send_one = (\<lambda>(s, r, w).
     (let d = hd (srs_data_buffer s);
          s1 = s\<lparr>srs_data_buffer := tl (srs_data_buffer s)\<rparr>;
          f = data_frame (srs_next_seq_num s1 mod srs_max_seq_num s1) d;
          (t1, w1) = time_time w;
          s2 = s1\<lparr>srs_window :=
                   AList.update (srs_next_seq_num s1)
                     \<lparr>we_frame = f, we_timestamp = t1, we_data = d\<rparr> (srs_window s1)\<rparr>;
          (t2, w2) = time_time w1;
          s3 = s2\<lparr>srs_individual_timers :=
                   AList.update (srs_next_seq_num s2) t2 (srs_individual_timers s2),
                 srs_total_transmissions := srs_total_transmissions s2 + 1\<rparr>;
          (a, r1, w3) = sr_receive_frame f r w2;
          s4 = sr_process_acks a s3
      in (s4\<lparr>srs_next_seq_num := srs_next_seq_num s4 + 1\<rparr>, r1, w3)))"

lemma sr_process_ack_data_buffer [simp]:
  "srs_data_buffer (sr_process_ack a s) = srs_data_buffer s"
  by (simp add: sr_process_ack_def Let_def)

lemma sr_process_acks_data_buffer [simp]:
  "srs_data_buffer (sr_process_acks a s) = srs_data_buffer s"
proof (cases a)
  case None
  then show ?thesis by (simp add: sr_process_acks_def)
next
  case (Some ns)
  have "srs_data_buffer (fold sr_process_ack ns s) = srs_data_buffer s"
    by (induction ns arbitrary: s) simp_all
  with Some show ?thesis by (simp add: sr_process_acks_def)
qed

lemma sr_send_one_data_buffer:
  "srs_data_buffer (fst (sr_send_one (s, r, w))) = tl (srs_data_buffer s)"
  by (simp add: sr_send_one_def Let_def split: prod.splits)

function sr_send_new ::
  "SelectiveRepeatSender \<times> SelectiveRepeatReceiver \<times> world
     \<Rightarrow> SelectiveRepeatSender \<times> SelectiveRepeatReceiver \<times> world" where
  "sr_send_new st = (if sr_can_send (fst st) then sr_send_new (sr_send_one st) else st)"
  by pat_completeness auto
termination
proof (relation "measure (\<lambda>st. length (srs_data_buffer (fst st)))")
  show "wf (measure (\<lambda>st. length (srs_data_buffer (fst st))))" by simp
next
  fix st :: "SelectiveRepeatSender \<times> SelectiveRepeatReceiver \<times> world"
  assume c: "sr_can_send (fst st)"
  obtain s r w where st: "st = (s, r, w)" by (cases st) auto
  from c st have "srs_data_buffer s \<noteq> []" by (auto simp: sr_can_send_def)
  then show "(sr_send_one st, st) \<in> measure (\<lambda>st. length (srs_data_buffer (fst st)))"
    by (simp add: st sr_send_one_data_buffer)
qed

declare sr_send_new.simps [simp del]

text \<open>
  The body of the main loop of \<^verbatim>\<open>SelectiveRepeatSender.send_frames\<close>: admit new
  frames, check the timers, slide the window.
\<close>

definition sr_iteration ::
  "SelectiveRepeatSender \<times> SelectiveRepeatReceiver \<times> world
     \<Rightarrow> SelectiveRepeatSender \<times> SelectiveRepeatReceiver \<times> world" where
  "sr_iteration st =
     (let (s, r, w) = check_individual_timeouts (sr_send_new st) in (slide_window s, r, w))"

text \<open>
  The main loop is \<^verbatim>\<open>while self.data_buffer or self.window:\<close> with no other exit
  than the \<^verbatim>\<open>break\<close> on the same condition, so it is given fuel: the first argument
  bounds the number of passes through the body, and \<open>None\<close> says that the loop has
  not returned within that many passes.
\<close>

fun sr_send_loop ::
  "nat \<Rightarrow> SelectiveRepeatSender \<times> SelectiveRepeatReceiver \<times> world
     \<Rightarrow> (SelectiveRepeatSender \<times> SelectiveRepeatReceiver \<times> world) option" where
  "sr_send_loop 0 st =
     (if srs_data_buffer (fst st) \<noteq> [] \<or> srs_window (fst st) \<noteq> [] then None else Some st)"
| "sr_send_loop (Suc n) st =
     (if srs_data_buffer (fst st) \<noteq> [] \<or> srs_window (fst st) \<noteq> [] then
        (let st1 = sr_iteration st
         in if srs_window (fst st1) = [] \<and> srs_data_buffer (fst st1) = []
            then Some st1
            else sr_send_loop n st1)
      else Some st)"

definition sr_send_frames ::
  "nat \<Rightarrow> SelectiveRepeatSender \<Rightarrow> SelectiveRepeatReceiver \<Rightarrow> world
     \<Rightarrow> (SelectiveRepeatSender \<times> SelectiveRepeatReceiver \<times> world) option" where
  "sr_send_frames fuel s r w = sr_send_loop fuel (s, r, w)"

text \<open>
  \<^verbatim>\<open>SelectiveRepeatSender.get_statistics\<close>: three keys, the efficiency as in
  Go-Back-N.
\<close>

definition sr_get_statistics ::
  "SelectiveRepeatSender \<Rightarrow> error + (string \<times> py_value) list" where
  "sr_get_statistics s =
     (if srs_total_transmissions s > 0 then
        (case int_truediv (srs_total_transmissions s - srs_retransmissions s)
                (srs_total_transmissions s) of
           Inl e \<Rightarrow> Inl e
         | Inr q \<Rightarrow>
             Inr [(''total_transmissions'', PyInt (srs_total_transmissions s)),
                  (''retransmissions'', PyInt (srs_retransmissions s)),
                  (''efficiency'', PyStr (format_1f (float_mul q (Float False 100)) @ ''%''))])
      else
        Inr [(''total_transmissions'', PyInt (srs_total_transmissions s)),
             (''retransmissions'', PyInt (srs_retransmissions s)),
             (''efficiency'', PyStr ''0%'')])"

section \<open>Construction\<close>

text \<open>
  None of the \<^verbatim>\<open>__init__\<close> methods has a check or a \<^verbatim>\<open>raise\<close>: each stores its
  arguments and the initial counters. The result type keeps a place for an exception
  (\<open>Inl\<close>) so that its absence can be stated.
\<close>

definition StopAndWaitSender_new :: "real \<Rightarrow> error + StopAndWaitSender" where
  "StopAndWaitSender_new t = Inr (StopAndWaitSender_init t)"

definition GoBackNSender_new :: "int \<Rightarrow> real \<Rightarrow> error + GoBackNSender" where
  "GoBackNSender_new ws t = Inr (GoBackNSender_init ws t)"

definition SelectiveRepeatSender_new ::
  "int \<Rightarrow> real \<Rightarrow> error + SelectiveRepeatSender" where
  "SelectiveRepeatSender_new ws t = Inr (SelectiveRepeatSender_init ws t)"

definition SelectiveRepeatReceiver_new ::
  "int \<Rightarrow> error + SelectiveRepeatReceiver" where
  "SelectiveRepeatReceiver_new ws = Inr (SelectiveRepeatReceiver_init ws)"

section \<open>Scenarios\<close>

text \<open>A world with no faults: every draw is 0.5. The clock reads 0, 1, 2, ...\<close>

definition no_fault_world :: world where
  "no_fault_world = \<lparr>rnd = (\<lambda>i. 1 / 2), rnd_pos = 0, clk = (\<lambda>i. real i), clk_pos = 0\<rparr>"

text \<open>Stop-and-Wait, first attempt: the frame arrives intact (draws 0 and 1) and the
  acknowledgment is lost (draw 2 is below 0.1).\<close>

definition sw_ack_lost_world :: world where
  "sw_ack_lost_world =
     \<lparr>rnd = (\<lambda>i. if i = 2 then 5 / 100 else 1 / 2), rnd_pos = 0,
      clk = (\<lambda>i. real i), clk_pos = 0\<rparr>"

text \<open>Stop-and-Wait: two payloads sent over the fault-free channel.\<close>

definition sw_two_frames_sender :: StopAndWaitSender where
  "sw_two_frames_sender =
     fst (snd (sw_send_all [''Data1'', ''Data2''] (StopAndWaitSender_init 1)
                 StopAndWaitReceiver_init no_fault_world))"

text \<open>Senders whose counters stand at four transmissions, one of them a retransmission.\<close>

definition gbn_sender_4_1 :: GoBackNSender where
  "gbn_sender_4_1 =
     (GoBackNSender_init 4 2)\<lparr>gbs_total_transmissions := 4, gbs_retransmissions := 1\<rparr>"

definition sr_sender_4_1 :: SelectiveRepeatSender where
  "sr_sender_4_1 =
     (SelectiveRepeatSender_init 4 2)\<lparr>srs_total_transmissions := 4, srs_retransmissions := 1\<rparr>"

definition sw_sender_4 :: StopAndWaitSender where
  "sw_sender_4 = (StopAndWaitSender_init 2)\<lparr>sws_total_transmissions := 4\<rparr>"

text \<open>
  Selective Repeat, eight payloads, window 4 on both sides. The first 23 draws let every
  frame and every acknowledgment through; draw 23 loses the acknowledgment of the eighth
  frame (sequence number 7). The later draws \<open>r\<close>, the clock \<open>c\<close> and the timeout
  \<open>t\<close> are arbitrary.
\<close>

definition payloads8 :: "string list" where
  "payloads8 = [''A'', ''B'', ''C'', ''D'', ''E'', ''F'', ''G'', ''H'']"

definition ack7_lost_world :: "(nat \<Rightarrow> real) \<Rightarrow> (nat \<Rightarrow> real) \<Rightarrow> world" where
  "ack7_lost_world r c =
     \<lparr>rnd = (\<lambda>i. if i < 23 then 1 / 2 else if i = 23 then 5 / 100 else r i), rnd_pos = 0,
      clk = c, clk_pos = 0\<rparr>"

definition sr_start ::
  "real \<Rightarrow> (nat \<Rightarrow> real) \<Rightarrow> (nat \<Rightarrow> real)
     \<Rightarrow> SelectiveRepeatSender \<times> SelectiveRepeatReceiver \<times> world" where
  "sr_start t r c =
     (sr_add_data payloads8 (SelectiveRepeatSender_init 4 t), SelectiveRepeatReceiver_init 4,
      ack7_lost_world r c)"

text \<open>Selective Repeat, the same payloads: the first two frames are lost (draws 0 and
  1), the next two arrive and are acknowledged. The state after these four sends.\<close>

definition two_lost_world :: world where
  "two_lost_world =
     \<lparr>rnd = (\<lambda>i. if i < 2 then 5 / 100 else 1 / 2), rnd_pos = 0,
      clk = (\<lambda>i. real i), clk_pos = 0\<rparr>"

definition sr_two_lost :: "SelectiveRepeatSender \<times> SelectiveRepeatReceiver \<times> world" where
  "sr_two_lost =
     sr_send_new (sr_add_data payloads8 (SelectiveRepeatSender_init 4 (3 / 2)),
                  SelectiveRepeatReceiver_init 4, two_lost_world)"

text \<open>The same run after its first pass through the main loop and the sends of the
  second pass: all eight frames have been transmitted once.\<close>

definition sr_wrapped :: "SelectiveRepeatSender \<times> SelectiveRepeatReceiver \<times> world" where
  "sr_wrapped = sr_send_new (sr_iteration (sr_start (3 / 2) (\<lambda>i. 1 / 2) (\<lambda>i. real i)))"

text \<open>
  The states the run above cannot leave: nothing left to admit, every outstanding frame
  carries sequence number 7, and the receiver's window starts at a multiple of 8 with an
  empty buffer.
\<close>

definition stuck :: "SelectiveRepeatSender \<times> SelectiveRepeatReceiver \<times> world \<Rightarrow> bool" where
  "stuck st \<longleftrightarrow>
     srs_data_buffer (fst st) = [] \<and> srs_window (fst st) \<noteq> [] \<and>
     list_all (\<lambda>p. seq_num (we_frame (snd p)) = 7) (srs_window (fst st)) \<and>
     srr_max_seq_num (fst (snd st)) = 8 \<and> srr_window_size (fst (snd st)) = 4 \<and>
     srr_base (fst (snd st)) mod 8 = 0 \<and> srr_buffer (fst (snd st)) = []"

text \<open>Go-Back-N sender states with several frames outstanding, before and after the
  sequence numbers wrap.\<close>

definition gbn_entry :: "int \<Rightarrow> string \<Rightarrow> real \<Rightarrow> window_entry" where
  "gbn_entry k d t = \<lparr>we_frame = data_frame (k mod 8) d, we_timestamp = t, we_data = d\<rparr>"

definition gbn_two_outstanding :: GoBackNSender where
  "gbn_two_outstanding =
     (GoBackNSender_init 4 2)
       \<lparr>gbs_base := 1, gbs_next_seq_num := 2,
        gbs_window := [(1, gbn_entry 1 ''B'' 1), (2, gbn_entry 2 ''C'' 2)],
        gbs_total_transmissions := 3\<rparr>"

definition gbn_wrapped :: GoBackNSender where
  "gbn_wrapped =
     (GoBackNSender_init 4 2)
       \<lparr>gbs_base := 8, gbs_next_seq_num := 10,
        gbs_window :=
          [(8, gbn_entry 8 ''I'' 8), (9, gbn_entry 9 ''J'' 9), (10, gbn_entry 10 ''K'' 10)],
        gbs_total_transmissions := 11\<rparr>"

text \<open>Go-Back-N, three payloads: the second frame is lost (draw 3), nothing else is.\<close>

definition frame1_lost_world :: world where
  "frame1_lost_world =
     \<lparr>rnd = (\<lambda>i. if i = 3 then 5 / 100 else 1 / 2), rnd_pos = 0,
      clk = (\<lambda>i. real i), clk_pos = 0\<rparr>"

definition gbn_lossy_run :: "nat \<times> GoBackNSender \<times> GoBackNReceiver \<times> world" where
  "gbn_lossy_run =
     gbn_send_frames (gbn_add_data [''A'', ''B'', ''C''] (GoBackNSender_init 4 2))
       GoBackNReceiver_init frame1_lost_world"

text \<open>
  The cumulative acknowledgment as the specification words it: the target is the first
  outstanding instance at or after \<open>base\<close> whose modular number is the acknowledged
  one; the entries from \<open>base\<close> through the target are retired and \<open>base\<close> moves
  one past the highest of them. Without such an instance nothing changes.
\<close>

definition gbn_process_ack_spec :: "int \<Rightarrow> GoBackNSender \<Rightarrow> GoBackNSender" where
  "gbn_process_ack_spec a s =
     (case filter (\<lambda>k. gbs_base s \<le> k \<and> k mod gbs_max_seq_num s = a)
             (sort (map fst (gbs_window s))) of
        [] \<Rightarrow> s
      | target # _ \<Rightarrow>
          (let retired = filter (\<lambda>k. gbs_base s \<le> k \<and> k \<le> target) (map fst (gbs_window s))
           in s\<lparr>gbs_window := fold AList.delete retired (gbs_window s),
                 gbs_base := py_max retired + 1\<rparr>))"

text \<open>
  Runs with windows larger than the defaults. In \<open>acks_lost_world n\<close> every frame
  arrives intact and the acknowledgments of the first \<open>n\<close> frames received are lost (the
  third draw of each of the first \<open>n\<close> calls of \<^verbatim>\<open>receive_frame\<close>); the clock
  advances by one second at every reading. Selective Repeat runs with a window of 5 on
  both sides, Go-Back-N with a window of 8; the timeout is one second and the input is
  the eight payloads above.
\<close>

definition acks_lost_world :: "nat \<Rightarrow> world" where
  "acks_lost_world n =
     \<lparr>rnd = (\<lambda>i. if i < 3 * n \<and> i mod 3 = 2 then 5 / 100 else 1 / 2), rnd_pos = 0,
      clk = (\<lambda>i. real i), clk_pos = 0\<rparr>"

definition sr_window5_run ::
  "(SelectiveRepeatSender \<times> SelectiveRepeatReceiver \<times> world) option" where
  "sr_window5_run =
     sr_send_frames 2 (sr_add_data payloads8 (SelectiveRepeatSender_init 5 1))
       (SelectiveRepeatReceiver_init 5) (acks_lost_world 5)"

definition gbn_window8_run :: "nat \<times> GoBackNSender \<times> GoBackNReceiver \<times> world" where
  "gbn_window8_run =
     gbn_send_frames (gbn_add_data payloads8 (GoBackNSender_init 8 1))
       GoBackNReceiver_init (acks_lost_world 8)"

text \<open>Stop-and-Wait: two payloads, the acknowledgment of the first one is lost. The
  sender, the receiver and the environment after the run.\<close>

definition sw_lossy_run :: "StopAndWaitSender \<times> StopAndWaitReceiver \<times> world" where
  "sw_lossy_run =
     snd (sw_send_all [''Data1'', ''Data2''] (StopAndWaitSender_init 1)
            StopAndWaitReceiver_init sw_ack_lost_world)"

text \<open>
  Selective Repeat with a sender window of 9, larger than the sequence space: ten
  payloads, the first nine frames are lost (draws 0 to 8), so that the instances 0 to 8
  are outstanding when the sender has admitted what its window takes. Instances 0 and 8
  carry the same modular number 0.
\<close>

definition payloads10 :: "string list" where
  "payloads10 = [''A'', ''B'', ''C'', ''D'', ''E'', ''F'', ''G'', ''H'', ''I'', ''J'']"

definition nine_lost_world :: world where
  "nine_lost_world =
     \<lparr>rnd = (\<lambda>i. if i < 9 then 5 / 100 else 1 / 2), rnd_pos = 0,
      clk = (\<lambda>i. real i), clk_pos = 0\<rparr>"

definition sr_window9_start ::
  "SelectiveRepeatSender \<times> SelectiveRepeatReceiver \<times> world" where
  "sr_window9_start =
     (sr_add_data payloads10 (SelectiveRepeatSender_init 9 2), SelectiveRepeatReceiver_init 4,
      nine_lost_world)"

definition sr_window9 :: "SelectiveRepeatSender \<times> SelectiveRepeatReceiver \<times> world" where
  "sr_window9 = sr_send_new sr_window9_start"

text \<open>Selective Repeat with a sender constructed with the window size -1: the start of
  the run.\<close>

definition sr_negative_start ::
  "SelectiveRepeatSender \<times> SelectiveRepeatReceiver \<times> world" where
  "sr_negative_start =
     (sr_add_data payloads8 (SelectiveRepeatSender_init (- 1) 2), SelectiveRepeatReceiver_init 4,
      no_fault_world)"

section \<open>Observable points of a Selective Repeat run\<close>

text \<open>
  The states a run passes through between two operations of the sender: the start, the
  state after a frame was admitted and sent, after a frame was retransmitted (whatever
  the timers said), after the clock was read, and after one step of the window slide.
  Every state of the main loop is among them.
\<close>

inductive sr_reach ::
  "SelectiveRepeatSender \<times> SelectiveRepeatReceiver \<times> world
     \<Rightarrow> SelectiveRepeatSender \<times> SelectiveRepeatReceiver \<times> world \<Rightarrow> bool"
  for st0 where
  start: "sr_reach st0 st0"
| send: "sr_reach st0 st \<Longrightarrow> sr_can_send (fst st) \<Longrightarrow> sr_reach st0 (sr_send_one st)"
| retransmit: "sr_reach st0 st \<Longrightarrow> sr_reach st0 (selective_retransmit k st)"
| clock: "sr_reach st0 (s, r, w) \<Longrightarrow> sr_reach st0 (s, r, snd (time_time w))"
| slide: "sr_reach st0 (s, r, w) \<Longrightarrow>
     srs_base s mod srs_max_seq_num s |\<in>| srs_ack_received s \<Longrightarrow>
     sr_reach st0
       (s\<lparr>srs_ack_received := srs_ack_received s |-| {|srs_base s mod srs_max_seq_num s|},
          srs_base := srs_base s + 1\<rparr>, r, w)"

text \<open>
  The window invariant of the sender, with the number of instances created so far as a
  parameter: the window's keys lie between \<open>base\<close> and that number and carry their own
  modular number, and every acknowledged modular number stands for an instance in that
  range (the first one at or after \<open>base\<close> with that residue) which is no longer in the
  window. The receiver's buffer holds residues of its current window only.
\<close>

definition snd_win_inv :: "int \<Rightarrow> SelectiveRepeatSender \<Rightarrow> bool" where
  "snd_win_inv nx s \<longleftrightarrow>
     srs_max_seq_num s = 8 \<and> srs_base s \<le> nx \<and> nx \<le> srs_base s + srs_window_size s \<and>
     (\<forall>k e. map_of (srs_window s) k = Some e \<longrightarrow>
        srs_base s \<le> k \<and> k < nx \<and> seq_num (we_frame e) = k mod 8) \<and>
     (\<forall>a. a |\<in>| srs_ack_received s \<longrightarrow>
        0 \<le> a \<and> a < 8 \<and> srs_base s + (a - srs_base s) mod 8 < nx \<and>
        map_of (srs_window s) (srs_base s + (a - srs_base s) mod 8) = None)"

definition rcv_buf_inv :: "SelectiveRepeatReceiver \<Rightarrow> bool" where
  "rcv_buf_inv r \<longleftrightarrow>
     srr_max_seq_num r = 8 \<and>
     (\<forall>q d. map_of (srr_buffer r) q = Some d \<longrightarrow> 0 \<le> q \<and> q < 8 \<and> is_in_window r q)"

definition sr_window_inv ::
  "SelectiveRepeatSender \<times> SelectiveRepeatReceiver \<times> world \<Rightarrow> bool" where
  "sr_window_inv st \<longleftrightarrow>
     snd_win_inv (srs_next_seq_num (fst st)) (fst st) \<and> rcv_buf_inv (fst (snd st))"

section \<open>Invariants of a Go-Back-N run\<close>

text \<open>
  The input payload sequence \<open>inp\<close> and the number \<open>nx\<close> of instances created so far
  are parameters. The sender's window holds instances between \<open>base\<close> and \<open>nx\<close>, each
  with the frame made from its own payload. The receiver has accepted a subsequence of
  the payloads up to some instance \<open>l\<close> below \<open>nx\<close> and expects the modular number
  after \<open>l\<close>.
\<close>

definition gbn_snd_inv :: "string list \<Rightarrow> int \<Rightarrow> GoBackNSender \<Rightarrow> bool" where
  "gbn_snd_inv inp nx s \<longleftrightarrow>
     gbs_max_seq_num s = 8 \<and> gbs_window_size s \<le> 7 \<and> 0 \<le> gbs_base s \<and> gbs_base s \<le> nx \<and>
     nx \<le> int (length inp) \<and> nx - gbs_base s \<le> max 0 (gbs_window_size s) \<and>
     (\<forall>k e. map_of (gbs_window s) k = Some e \<longrightarrow>
        gbs_base s \<le> k \<and> k < nx \<and> we_frame e = data_frame (k mod 8) (inp ! nat k))"

definition gbn_rcv_inv :: "string list \<Rightarrow> int \<Rightarrow> GoBackNReceiver \<Rightarrow> bool" where
  "gbn_rcv_inv inp nx r \<longleftrightarrow>
     gbr_max_seq_num r = 8 \<and>
     (\<exists>l. - 1 \<le> l \<and> l < nx \<and> gbr_expected_seq_num r mod 8 = (l + 1) mod 8 \<and>
          subseq (gbr_received_frames r) (take (nat (l + 1)) inp))"

definition gbn_inv ::
  "string list \<Rightarrow> GoBackNSender \<times> GoBackNReceiver \<times> world \<Rightarrow> bool" where
  "gbn_inv inp st \<longleftrightarrow>
     gbn_snd_inv inp (gbs_next_seq_num (fst st)) (fst st) \<and>
     gbn_rcv_inv inp (gbs_next_seq_num (fst st)) (fst (snd st)) \<and>
     0 \<le> gbs_next_seq_num (fst st) \<and>
     gbs_data_buffer (fst st) = drop (nat (gbs_next_seq_num (fst st))) inp"

section \<open>Invariants of a Selective Repeat run\<close>

text \<open>
  An instance \<open>k\<close> has been received when it lies below the receiver's base or its modular
  number is in the buffer. The receiver has delivered the first \<open>base\<close> payloads of the
  input, and what it buffers are payloads of instances of its window. The sender's window
  holds instances between \<open>base\<close> and \<open>nx\<close> with their own frames, an acknowledged
  modular number stands for an instance that has left the window, and an instance that
  has left the window has been received. At the points between two operations the
  receiver's buffer has nothing at its base.
\<close>

definition sr_received :: "SelectiveRepeatReceiver \<Rightarrow> int \<Rightarrow> bool" where
  "sr_received r k \<longleftrightarrow> k < srr_base r \<or> map_of (srr_buffer r) (k mod 8) \<noteq> None"

definition sr_rcv_inv :: "string list \<Rightarrow> int \<Rightarrow> int \<Rightarrow> SelectiveRepeatReceiver \<Rightarrow> bool" where
  "sr_rcv_inv inp ws nx r \<longleftrightarrow>
     srr_max_seq_num r = 8 \<and> srr_window_size r = ws \<and> 0 \<le> srr_base r \<and> srr_base r \<le> nx \<and>
     nx \<le> int (length inp) \<and> srr_received_frames r = take (nat (srr_base r)) inp \<and>
     (\<forall>q d. map_of (srr_buffer r) q = Some d \<longrightarrow>
        (\<exists>k. srr_base r \<le> k \<and> k < srr_base r + ws \<and> k < nx \<and> k mod 8 = q \<and>
             d = inp ! nat k))"

definition sr_snd_inv ::
  "string list \<Rightarrow> int \<Rightarrow> SelectiveRepeatSender \<Rightarrow> SelectiveRepeatReceiver \<Rightarrow> bool" where
  "sr_snd_inv inp nx s r \<longleftrightarrow>
     srs_max_seq_num s = 8 \<and> srs_window_size s \<le> 4 \<and> 0 \<le> srs_base s \<and>
     srs_base s \<le> srr_base r \<and> srs_base s \<le> nx \<and>
     nx - srs_base s \<le> max 0 (srs_window_size s) \<and>
     (\<forall>k e. map_of (srs_window s) k = Some e \<longrightarrow>
        srs_base s \<le> k \<and> k < nx \<and> we_frame e = data_frame (k mod 8) (inp ! nat k)) \<and>
     (\<forall>a. a |\<in>| srs_ack_received s \<longrightarrow>
        (\<exists>p. srs_base s \<le> p \<and> p < nx \<and> p mod 8 = a \<and> map_of (srs_window s) p = None)) \<and>
     (\<forall>k. srs_base s \<le> k \<longrightarrow> k < nx \<longrightarrow> map_of (srs_window s) k = None \<longrightarrow> sr_received r k)"

definition sr_pair_inv ::
  "string list \<Rightarrow> int \<Rightarrow> SelectiveRepeatSender \<Rightarrow> SelectiveRepeatReceiver \<Rightarrow> bool" where
  "sr_pair_inv inp nx s r \<longleftrightarrow>
     sr_snd_inv inp nx s r \<and> sr_rcv_inv inp (srs_window_size s) nx r \<and>
     map_of (srr_buffer r) (srr_base r mod 8) = None"

definition sr_core_inv ::
  "string list \<Rightarrow> SelectiveRepeatSender \<times> SelectiveRepeatReceiver \<times> world \<Rightarrow> bool" where
  "sr_core_inv inp st \<longleftrightarrow>
     sr_pair_inv inp (srs_next_seq_num (fst st)) (fst st) (fst (snd st)) \<and>
     0 \<le> srs_next_seq_num (fst st) \<and>
     srs_data_buffer (fst st) = drop (nat (srs_next_seq_num (fst st))) inp"

section \<open>The delivered data\<close>

text \<open>\<^verbatim>\<open>get_received_data\<close> of the three receivers: \<^verbatim>\<open>return self.received_frames\<close>.\<close>

definition sw_get_received_data :: "StopAndWaitReceiver \<Rightarrow> string list" where
  "sw_get_received_data r = swr_received_frames r"

definition gbn_get_received_data :: "GoBackNReceiver \<Rightarrow> string list" where
  "gbn_get_received_data r = gbr_received_frames r"

definition sr_get_received_data :: "SelectiveRepeatReceiver \<Rightarrow> string list" where
  "sr_get_received_data r = srr_received_frames r"

section \<open>Rounding to a float\<close>

text \<open>
  The rounding to binary64 moves a number of magnitude at most \<open>2^k\<close> by at most
  \<open>2^(k - 53)\<close>, and stays finite up to \<open>k = 1023\<close>.
\<close>

lemma bit_length_bounds:
  "0 < n \<Longrightarrow> 2 ^ (bit_length n - 1) \<le> n \<and> n < 2 ^ bit_length n"
proof (induction n rule: bit_length.induct)
  case (1 n)
  have bl: "bit_length n = Suc (bit_length (n div 2))"
    using "1.prems" by (simp add: bit_length.simps [of n])
  show ?case
  proof (cases "n div 2 = 0")
    case True
    with "1.prems" have n1: "n = 1" by (simp add: div_eq_0_iff)
    have "bit_length (n div 2) = 0" using True by (simp add: bit_length.simps [of 0])
    with bl have b1: "bit_length n = 1" by simp
    show ?thesis unfolding b1 using n1 by simp
  next
    case False
    then have pos: "0 < n div 2" by simp
    from "1.IH" [OF _ pos] "1.prems"
    have ih: "2 ^ (bit_length (n div 2) - 1) \<le> n div 2" "n div 2 < 2 ^ bit_length (n div 2)"
      by simp_all
    have b1: "0 < bit_length (n div 2)"
      using pos by (simp add: bit_length.simps [of "n div 2"])
    then have "(2::nat) ^ bit_length (n div 2) = 2 * 2 ^ (bit_length (n div 2) - 1)"
      by (cases "bit_length (n div 2)") simp_all
    also have "\<dots> \<le> 2 * (n div 2)" using ih(1) by simp
    also have "\<dots> \<le> n" by simp
    finally have lo: "2 ^ bit_length (n div 2) \<le> n" .
    from ih(2) have "n div 2 + 1 \<le> 2 ^ bit_length (n div 2)" by simp
    then have "2 * (n div 2 + 1) \<le> 2 * 2 ^ bit_length (n div 2)" by simp
    moreover have "n < 2 * (n div 2 + 1)" by simp
    ultimately have hi: "n < 2 ^ Suc (bit_length (n div 2))" by simp
    from lo hi show ?thesis by (simp add: bl)
  qed
qed

lemma pow2_powi: "pow2 e = 2 powi e"
  by (simp add: pow2_def power_int_def field_simps)

lemma pow2_pos [simp]: "0 < pow2 e"
  by (simp add: pow2_powi zero_less_power_int)

lemma pow2_nonneg [simp]: "0 \<le> pow2 e"
  using pow2_pos [of e] by (rule less_imp_le)

lemma pow2_neq_0 [simp]: "pow2 e \<noteq> 0"
  using pow2_pos [of e] by (rule less_imp_neq [symmetric])

lemma pow2_add: "pow2 (a + b) = pow2 a * pow2 b"
  by (simp add: pow2_powi power_int_add)

lemma pow2_mono: "a \<le> b \<Longrightarrow> pow2 a \<le> pow2 b"
  by (simp add: pow2_powi power_int_increasing)

lemma pow2_le_imp: "pow2 a \<le> pow2 b \<Longrightarrow> a \<le> b"
proof (rule ccontr)
  assume le: "pow2 a \<le> pow2 b" and "\<not> a \<le> b"
  then have "b < a" by simp
  then have "pow2 b < pow2 a" by (simp add: pow2_powi power_int_strict_increasing)
  with le show False by simp
qed

lemma pow2_nat: "pow2 (int n) = 2 ^ n"
  by (simp add: pow2_def)


lemma ilog2_le:
  assumes "0 < x"
  shows "pow2 (ilog2 x) \<le> x"
proof -
  obtain p q where pq: "quotient_of x = (p, q)" by (cases "quotient_of x") auto
  then have q: "0 < q" and x: "x = of_int p / of_int q"
    by (simp_all add: quotient_of_denom_pos quotient_of_div)
  from assms x q have p: "0 < p" by (simp add: zero_less_divide_iff)
  let ?bp = "bit_length (nat p)" and ?bq = "bit_length (nat q)"
  let ?d = "int ?bp - int ?bq"
  have e: "ilog2 x = (if pow2 ?d \<le> x then ?d else ?d - 1)"
    by (simp add: ilog2_def pq Let_def)
  show ?thesis
  proof (cases "pow2 ?d \<le> x")
    case True
    with e show ?thesis by simp
  next
    case False
    from bit_length_bounds [of "nat p"] p have lo: "2 ^ (?bp - 1) \<le> nat p" by simp
    from bit_length_bounds [of "nat q"] q have hi: "nat q < 2 ^ ?bq" by simp
    have bp: "0 < ?bp" using p by (simp add: bit_length.simps [of "nat p"])
    from lo p have lo': "(2::rat) ^ (?bp - 1) \<le> of_int p"
    proof -
      from lo have "int (2 ^ (?bp - 1)) \<le> int (nat p)" by (simp only: of_nat_le_iff)
      with p have "(2::int) ^ (?bp - 1) \<le> p" by simp
      then have "(of_int ((2::int) ^ (?bp - 1)) :: rat) \<le> of_int p" by (simp only: of_int_le_iff)
      then show ?thesis by simp
    qed
    from hi q have hi': "(of_int q :: rat) \<le> 2 ^ ?bq"
    proof -
      from hi have "int (nat q) < int (2 ^ ?bq)" by (simp only: of_nat_less_iff)
      with q have "q < (2::int) ^ ?bq" by simp
      then have "(of_int q :: rat) < of_int ((2::int) ^ ?bq)" by (simp only: of_int_less_iff)
      then show ?thesis by simp
    qed
    have "pow2 (?d - 1) = pow2 (int (?bp - 1)) * pow2 (- int ?bq)"
    proof -
      have "?d - 1 = int (?bp - 1) + (- int ?bq)" using bp by simp
      then show ?thesis by (simp only: pow2_add)
    qed
    also have "\<dots> = 2 ^ (?bp - 1) / 2 ^ ?bq"
      by (simp add: pow2_nat) (simp add: pow2_def)
    also have "\<dots> \<le> of_int p / of_int q"
      using lo' hi' q p by (intro frac_le) simp_all
    finally have "pow2 (?d - 1) \<le> x" by (simp add: x)
    with e False show ?thesis by simp
  qed
qed

lemma round_half_even_error: "\<bar>of_int (round_half_even z) - z\<bar> \<le> 1 / 2"
proof -
  have "of_int \<lfloor>z\<rfloor> \<le> z" "z < of_int \<lfloor>z\<rfloor> + 1" by linarith+
  then show ?thesis by (auto simp: round_half_even_def Let_def)
qed

lemma round_half_even_nonneg: "0 \<le> z \<Longrightarrow> 0 \<le> round_half_even z"
proof -
  assume "0 \<le> z"
  then have "0 \<le> \<lfloor>z\<rfloor>" by simp
  then show ?thesis by (auto simp: round_half_even_def Let_def)
qed

lemma round_binary64_error:
  assumes x: "0 \<le> x" "x \<le> pow2 k" and k: "- 1022 \<le> k" "k \<le> 1023"
  shows "\<exists>y. round_binary64 x = Some y \<and> 0 \<le> y \<and> \<bar>y - x\<bar> \<le> pow2 (k - 53)"
proof (cases "x = 0")
  case True
  then show ?thesis by (simp add: round_binary64_def less_imp_le)
next
  case False
  with x(1) have pos: "0 < x" by simp
  define u where "u = max (ilog2 x - 52) (- 1074)"
  define m where "m = round_half_even (x / pow2 u)"
  define y where "y = of_int m * pow2 u"
  have "pow2 (ilog2 x) \<le> pow2 k" using ilog2_le [OF pos] x(2) by simp
  then have "ilog2 x \<le> k" by (rule pow2_le_imp)
  with k have uk: "u \<le> k - 52" by (simp add: u_def)
  have m0: "0 \<le> m" unfolding m_def using pos pow2_pos [of u]
    by (intro round_half_even_nonneg divide_nonneg_pos) simp_all
  then have y0: "0 \<le> y" by (simp add: y_def)
  have "\<bar>y - x\<bar> = \<bar>of_int m - x / pow2 u\<bar> * pow2 u"
  proof -
    have "y - x = (of_int m - x / pow2 u) * pow2 u"
      using pow2_pos [of u] by (simp add: y_def field_simps)
    then show ?thesis by (simp add: abs_mult)
  qed
  also have "\<dots> \<le> 1 / 2 * pow2 u"
    using round_half_even_error [of "x / pow2 u"] pow2_pos [of u]
    by (intro mult_right_mono) (simp_all add: m_def)
  also have "\<dots> \<le> 1 / 2 * pow2 (k - 52)" using pow2_mono [OF uk] by simp
  also have "\<dots> = pow2 (k - 53)"
  proof -
    have "pow2 (k - 52) = pow2 (k - 53 + 1)" by simp
    also have "\<dots> = pow2 (k - 53) * pow2 1" by (simp only: pow2_add)
    finally show ?thesis by (simp add: pow2_def)
  qed
  finally have err: "\<bar>y - x\<bar> \<le> pow2 (k - 53)" .
  have "y \<le> x + pow2 (k - 53)" using err by linarith
  also have "\<dots> \<le> pow2 k + pow2 k"
    using x(2) pow2_mono [of "k - 53" k] by simp
  also have "\<dots> = pow2 (k + 1)" by (simp add: pow2_add) (simp add: pow2_def)
  also have "\<dots> \<le> pow2 1024" using k by (intro pow2_mono) simp
  finally have "y \<le> pow2 1024" .
  moreover have "y \<noteq> pow2 1024"
  proof
    assume "y = pow2 1024"
    with err have "pow2 1024 \<le> x + pow2 (k - 53)" by linarith
    also have "\<dots> \<le> pow2 k + pow2 (k - 53)" using x(2) by simp
    also have "\<dots> < pow2 k + pow2 k"
    proof -
      have "pow2 (k - 53) < pow2 k" by (simp add: pow2_powi power_int_strict_increasing)
      then show ?thesis by simp
    qed
    also have "\<dots> = pow2 (k + 1)" by (simp add: pow2_add) (simp add: pow2_def)
    also have "\<dots> \<le> pow2 1024" using k by (intro pow2_mono) simp
    finally show False by simp
  qed
  ultimately have "\<not> pow2 1024 \<le> y" by simp
  then have "round_binary64 x = Some y"
    using False by (simp add: round_binary64_def Let_def u_def [symmetric] m_def [symmetric] y_def)
  with y0 err show ?thesis by blast
qed


lemma efficiency_string:
  fixes a b :: int
  assumes ab: "0 \<le> a" "a \<le> b" "0 < b"
  shows "\<exists>q t. int_truediv a b = Inr q \<and>
           format_1f (float_mul q (Float False 100))
             = str_nat (t div 10) @ ''.'' @ str_nat (t mod 10) \<and>
           \<bar>of_nat t / 10 - of_int a / of_int b * 100\<bar> \<le> (1 / 20 + 1 / 2 ^ 45 :: rat)"
proof -
  define x :: rat where "x = of_int a / of_int b"
  have x0: "0 \<le> x" and x1: "x \<le> 1" using ab by (simp_all add: x_def)
  have "x \<le> pow2 0" using x1 by (simp add: pow2_def)
  from round_binary64_error [OF x0 this]
  obtain y where y: "round_binary64 x = Some y" "0 \<le> y" "\<bar>y - x\<bar> \<le> pow2 (- 53)"
    by auto
  have p53: "pow2 (- 53) = 1 / 2 ^ 53" and p46: "pow2 (- 46) = 1 / 2 ^ 46"
    and p7: "pow2 7 = 128" by (simp_all add: pow2_def)
  have div: "int_truediv a b = Inr (Float False y)"
    using ab y(1) by (simp add: int_truediv_def x_def [symmetric] abs_of_nonneg [OF x0])
  have y1: "y \<le> 1 + 1 / 2 ^ 53" using y(3) x1 unfolding p53 by linarith
  have "y * 100 \<le> pow2 7" unfolding p7 using y1 by simp
  moreover have "0 \<le> y * 100" using y(2) by simp
  ultimately obtain z where z: "round_binary64 (y * 100) = Some z" "0 \<le> z"
    "\<bar>z - y * 100\<bar> \<le> pow2 (- 46)"
    using round_binary64_error [of "y * 100" 7] by auto
  have mul: "float_mul (Float False y) (Float False 100) = Float False z"
    using z(1) by simp
  define t where "t = nat (round_half_even (z * 10))"
  have "0 \<le> round_half_even (z * 10)" using z(2) by (intro round_half_even_nonneg) simp
  then have t: "(of_nat t :: rat) = of_int (round_half_even (z * 10))"
    by (simp add: t_def)
  have fmt: "format_1f (Float False z) = str_nat (t div 10) @ ''.'' @ str_nat (t mod 10)"
    by (simp add: t_def Let_def)
  have e1: "\<bar>of_nat t - z * 10\<bar> \<le> (1 / 2 :: rat)"
    unfolding t by (rule round_half_even_error)
  define d :: rat where "d = 1 / 2 ^ 46"
  define c :: rat where "c = 1 / 2 ^ 53"
  have cd: "100 * c \<le> d" and d45: "1 / 2 ^ 45 = 2 * d" by (simp_all add: c_def d_def)
  have e2: "\<bar>z - y * 100\<bar> \<le> d" using z(3) unfolding p46 d_def .
  have e3: "\<bar>y - x\<bar> \<le> c" using y(3) unfolding p53 c_def .
  have "\<bar>of_nat t / 10 - x * 100\<bar> \<le> 1 / 20 + 2 * d"
    using e1 e2 e3 cd by linarith
  then have "\<bar>of_nat t / 10 - x * 100\<bar> \<le> (1 / 20 + 1 / 2 ^ 45 :: rat)"
    unfolding d45 .
  with div mul fmt show ?thesis unfolding x_def by auto
qed

section \<open>Stop-and-Wait: a lost acknowledgment\<close>

lemmas sw_eval_defs =
  sw_send_frame_def sw_send_loop.simps sw_receive_frame_def StopAndWaitSender_init_def
  StopAndWaitReceiver_init_def random_random_def is_corrupted_def send_ack_def Let_def

text \<open>
  C8. In Stop-and-Wait an attempt whose acknowledgment is lost should leave the sender
  without an ACK, increment the retry counter and be retried. The code does otherwise:
  in the attempt below the frame arrives intact and \<^verbatim>\<open>send_ack\<close> loses the
  acknowledgment (it returns False at the third draw), yet \<^verbatim>\<open>receive_frame\<close> returns
  True, and \<^verbatim>\<open>send_frame\<close> returns True after this one transmission, with the retry
  counter at 0 and the sequence number toggled.
\<close>

theorem sw_lost_ack_is_taken_as_ack:
  "fst (send_ack (sw_ack_lost_world\<lparr>rnd_pos := 2\<rparr>)) = False \<and>
   sw_send_frame ''Hello'' (StopAndWaitSender_init 1) StopAndWaitReceiver_init sw_ack_lost_world =
     (Inr True,
      \<lparr>sws_timeout = 1, sws_seq_num = 1, sws_waiting_for_ack = False,
       sws_current_frame = Some (data_frame 0 ''Hello''), sws_retransmission_count = 0,
       sws_total_transmissions = 1\<rparr>,
      \<lparr>swr_expected_seq_num = 1, swr_received_frames = [''Hello'']\<rparr>,
      sw_ack_lost_world\<lparr>rnd_pos := 3\<rparr>)"
  by (simp add: sw_eval_defs sw_ack_lost_world_def data_frame_def)

section \<open>Statistics\<close>

text \<open>
  C9, as the code has it. For a Go-Back-N or a Selective Repeat sender with at least one
  transmission, \<^verbatim>\<open>get_statistics\<close> evaluates
  \<open>(total - retransmissions) / total * 100\<close> in floats and returns the total
  transmission count, the retransmission count and that percentage written with one
  decimal and a percent sign (the division raises only when the quotient is beyond the
  range of a float). With the counters of a run, \<open>0 \<le> retransmissions \<le> total\<close>, the
  call returns, and the number shown differs from the exact percentage by at most 0.05
  for the decimal shown and \<open>2^-45\<close> for the floats. For a Stop-and-Wait sender with at
  least one transmission the call returns two entries, the total transmission count and
  an efficiency string; there is no retransmission count.
\<close>

theorem get_statistics_values:
  "(0 < gbs_total_transmissions g \<longrightarrow>
      gbn_get_statistics g =
        (case int_truediv (gbs_total_transmissions g - gbs_retransmissions g)
                (gbs_total_transmissions g) of
           Inl e \<Rightarrow> Inl e
         | Inr q \<Rightarrow>
             Inr [(''total_transmissions'', PyInt (gbs_total_transmissions g)),
                  (''retransmissions'', PyInt (gbs_retransmissions g)),
                  (''efficiency'',
                   PyStr (format_1f (float_mul q (Float False 100)) @ ''%''))])) \<and>
   (0 < gbs_total_transmissions g \<and> 0 \<le> gbs_retransmissions g \<and>
    gbs_retransmissions g \<le> gbs_total_transmissions g \<longrightarrow>
      (\<exists>n. gbn_get_statistics g =
             Inr [(''total_transmissions'', PyInt (gbs_total_transmissions g)),
                  (''retransmissions'', PyInt (gbs_retransmissions g)),
                  (''efficiency'',
                   PyStr (str_nat (n div 10) @ ''.'' @ str_nat (n mod 10) @ ''%''))] \<and>
           \<bar>of_nat n / 10
              - of_int (gbs_total_transmissions g - gbs_retransmissions g)
                  / of_int (gbs_total_transmissions g) * 100\<bar>
             \<le> (1 / 20 + 1 / 2 ^ 45 :: rat))) \<and>
   (0 < srs_total_transmissions s \<longrightarrow>
      sr_get_statistics s =
        (case int_truediv (srs_total_transmissions s - srs_retransmissions s)
                (srs_total_transmissions s) of
           Inl e \<Rightarrow> Inl e
         | Inr q \<Rightarrow>
             Inr [(''total_transmissions'', PyInt (srs_total_transmissions s)),
                  (''retransmissions'', PyInt (srs_retransmissions s)),
                  (''efficiency'',
                   PyStr (format_1f (float_mul q (Float False 100)) @ ''%''))])) \<and>
   (0 < srs_total_transmissions s \<and> 0 \<le> srs_retransmissions s \<and>
    srs_retransmissions s \<le> srs_total_transmissions s \<longrightarrow>
      (\<exists>n. sr_get_statistics s =
             Inr [(''total_transmissions'', PyInt (srs_total_transmissions s)),
                  (''retransmissions'', PyInt (srs_retransmissions s)),
                  (''efficiency'',
                   PyStr (str_nat (n div 10) @ ''.'' @ str_nat (n mod 10) @ ''%''))] \<and>
           \<bar>of_nat n / 10
              - of_int (srs_total_transmissions s - srs_retransmissions s)
                  / of_int (srs_total_transmissions s) * 100\<bar>
             \<le> (1 / 20 + 1 / 2 ^ 45 :: rat))) \<and>
   (0 < sws_total_transmissions t \<longrightarrow>
      (\<exists>e. sw_get_statistics t =
             Inr [(''total_transmissions'', PyInt (sws_total_transmissions t)),
                  (''efficiency'', PyStr e)]))"
proof (intro conjI impI)
  assume "0 < gbs_total_transmissions g"
  then show "gbn_get_statistics g =
        (case int_truediv (gbs_total_transmissions g - gbs_retransmissions g)
                (gbs_total_transmissions g) of
           Inl e \<Rightarrow> Inl e
         | Inr q \<Rightarrow>
             Inr [(''total_transmissions'', PyInt (gbs_total_transmissions g)),
                  (''retransmissions'', PyInt (gbs_retransmissions g)),
                  (''efficiency'',
                   PyStr (format_1f (float_mul q (Float False 100)) @ ''%''))])"
    by (simp add: gbn_get_statistics_def)
next
  assume "0 < srs_total_transmissions s"
  then show "sr_get_statistics s =
        (case int_truediv (srs_total_transmissions s - srs_retransmissions s)
                (srs_total_transmissions s) of
           Inl e \<Rightarrow> Inl e
         | Inr q \<Rightarrow>
             Inr [(''total_transmissions'', PyInt (srs_total_transmissions s)),
                  (''retransmissions'', PyInt (srs_retransmissions s)),
                  (''efficiency'',
                   PyStr (format_1f (float_mul q (Float False 100)) @ ''%''))])"
    by (simp add: sr_get_statistics_def)
next
  let ?tt = "gbs_total_transmissions g" and ?rt = "gbs_retransmissions g"
  assume a: "0 < ?tt \<and> 0 \<le> ?rt \<and> ?rt \<le> ?tt"
  then have "0 \<le> ?tt - ?rt" "?tt - ?rt \<le> ?tt" "0 < ?tt" by simp_all
  from efficiency_string [OF this] obtain q n where
    "int_truediv (?tt - ?rt) ?tt = Inr q"
    "format_1f (float_mul q (Float False 100)) = str_nat (n div 10) @ ''.'' @ str_nat (n mod 10)"
    "\<bar>of_nat n / 10 - of_int (?tt - ?rt) / of_int ?tt * 100\<bar> \<le> (1 / 20 + 1 / 2 ^ 45 :: rat)"
    by blast
  with a have "gbn_get_statistics g =
             Inr [(''total_transmissions'', PyInt ?tt), (''retransmissions'', PyInt ?rt),
                  (''efficiency'',
                   PyStr (str_nat (n div 10) @ ''.'' @ str_nat (n mod 10) @ ''%''))] \<and>
           \<bar>of_nat n / 10 - of_int (?tt - ?rt) / of_int ?tt * 100\<bar>
             \<le> (1 / 20 + 1 / 2 ^ 45 :: rat)"
    by (simp add: gbn_get_statistics_def)
  then show "\<exists>n. gbn_get_statistics g =
             Inr [(''total_transmissions'', PyInt ?tt), (''retransmissions'', PyInt ?rt),
                  (''efficiency'',
                   PyStr (str_nat (n div 10) @ ''.'' @ str_nat (n mod 10) @ ''%''))] \<and>
           \<bar>of_nat n / 10 - of_int (?tt - ?rt) / of_int ?tt * 100\<bar>
             \<le> (1 / 20 + 1 / 2 ^ 45 :: rat)" ..
next
  let ?tt = "srs_total_transmissions s" and ?rt = "srs_retransmissions s"
  assume a: "0 < ?tt \<and> 0 \<le> ?rt \<and> ?rt \<le> ?tt"
  then have "0 \<le> ?tt - ?rt" "?tt - ?rt \<le> ?tt" "0 < ?tt" by simp_all
  from efficiency_string [OF this] obtain q n where
    "int_truediv (?tt - ?rt) ?tt = Inr q"
    "format_1f (float_mul q (Float False 100)) = str_nat (n div 10) @ ''.'' @ str_nat (n mod 10)"
    "\<bar>of_nat n / 10 - of_int (?tt - ?rt) / of_int ?tt * 100\<bar> \<le> (1 / 20 + 1 / 2 ^ 45 :: rat)"
    by blast
  with a have "sr_get_statistics s =
             Inr [(''total_transmissions'', PyInt ?tt), (''retransmissions'', PyInt ?rt),
                  (''efficiency'',
                   PyStr (str_nat (n div 10) @ ''.'' @ str_nat (n mod 10) @ ''%''))] \<and>
           \<bar>of_nat n / 10 - of_int (?tt - ?rt) / of_int ?tt * 100\<bar>
             \<le> (1 / 20 + 1 / 2 ^ 45 :: rat)"
    by (simp add: sr_get_statistics_def)
  then show "\<exists>n. sr_get_statistics s =
             Inr [(''total_transmissions'', PyInt ?tt), (''retransmissions'', PyInt ?rt),
                  (''efficiency'',
                   PyStr (str_nat (n div 10) @ ''.'' @ str_nat (n mod 10) @ ''%''))] \<and>
           \<bar>of_nat n / 10 - of_int (?tt - ?rt) / of_int ?tt * 100\<bar>
             \<le> (1 / 20 + 1 / 2 ^ 45 :: rat)" ..
next
  let ?tt = "sws_total_transmissions t"
  assume a: "0 < ?tt"
  then have "(0::int) \<le> 1" "1 \<le> ?tt" "0 < ?tt" by simp_all
  from efficiency_string [OF this] obtain q where "int_truediv 1 ?tt = Inr q" by blast
  with a show "\<exists>e. sw_get_statistics t =
      Inr [(''total_transmissions'', PyInt ?tt), (''efficiency'', PyStr e)]"
    by (simp add: sw_get_statistics_def)
qed

lemma str_nat_75: "str_nat 75 = ''75''" "str_nat 0 = ''0''"
  by (simp_all add: str_nat.simps [of 75] str_nat.simps [of 7] str_nat.simps [of 0]
        str_nat.simps [of 5])

text \<open>C9, witness: four transmissions, one of them a retransmission, are reported as
  75.0 percent by the windowed senders; a Stop-and-Wait sender with four transmissions
  reports the count 4 and an efficiency string.\<close>

theorem get_statistics_values_witness:
  "gbn_get_statistics gbn_sender_4_1 =
     Inr [(''total_transmissions'', PyInt 4), (''retransmissions'', PyInt 1),
          (''efficiency'', PyStr ''75.0%'')] \<and>
   sr_get_statistics sr_sender_4_1 =
     Inr [(''total_transmissions'', PyInt 4), (''retransmissions'', PyInt 1),
          (''efficiency'', PyStr ''75.0%'')] \<and>
   (\<exists>e. sw_get_statistics sw_sender_4 =
      Inr [(''total_transmissions'', PyInt 4), (''efficiency'', PyStr e)])"
proof -
  have n750: "n = 750"
    if "\<bar>of_nat n / 10 - of_int (4 - 1) / of_int 4 * 100\<bar> \<le> (1 / 20 + 1 / 2 ^ 45 :: rat)"
    for n :: nat
  proof -
    define c :: rat where "c = 1 / 2 ^ 45"
    have c: "c \<le> 1 / 100" by (simp add: c_def)
    have "of_int (4 - 1) / of_int 4 * 100 = (75 :: rat)" by simp
    with that have "\<bar>(of_nat n :: rat) / 10 - 75\<bar> \<le> 1 / 20 + c"
      unfolding c_def by simp
    with c have "(of_nat n :: rat) < 751" "(749 :: rat) < of_nat n" by linarith+
    then have "(of_nat n :: rat) < of_nat 751" "(of_nat 749 :: rat) < of_nat n" by simp_all
    then have "n < 751" "749 < n" by (simp_all only: of_nat_less_iff)
    then show ?thesis by simp
  qed
  have g: "gbs_total_transmissions gbn_sender_4_1 = 4" "gbs_retransmissions gbn_sender_4_1 = 1"
    by (simp_all add: gbn_sender_4_1_def GoBackNSender_init_def)
  have s: "srs_total_transmissions sr_sender_4_1 = 4" "srs_retransmissions sr_sender_4_1 = 1"
    by (simp_all add: sr_sender_4_1_def SelectiveRepeatSender_init_def)
  have t: "sws_total_transmissions sw_sender_4 = 4"
    by (simp add: sw_sender_4_def StopAndWaitSender_init_def)
  note inst = get_statistics_values [of gbn_sender_4_1 sr_sender_4_1 sw_sender_4]
  have "\<exists>n. gbn_get_statistics gbn_sender_4_1 =
             Inr [(''total_transmissions'', PyInt 4), (''retransmissions'', PyInt 1),
                  (''efficiency'',
                   PyStr (str_nat (n div 10) @ ''.'' @ str_nat (n mod 10) @ ''%''))] \<and>
      \<bar>of_nat n / 10 - of_int (4 - 1) / of_int 4 * 100\<bar> \<le> (1 / 20 + 1 / 2 ^ 45 :: rat)"
    using inst [THEN conjunct2, THEN conjunct1] unfolding g by simp
  then obtain n where n: "gbn_get_statistics gbn_sender_4_1 =
             Inr [(''total_transmissions'', PyInt 4), (''retransmissions'', PyInt 1),
                  (''efficiency'',
                   PyStr (str_nat (n div 10) @ ''.'' @ str_nat (n mod 10) @ ''%''))]"
      "\<bar>of_nat n / 10 - of_int (4 - 1) / of_int 4 * 100\<bar> \<le> (1 / 20 + 1 / 2 ^ 45 :: rat)"
    by blast
  have "\<exists>m. sr_get_statistics sr_sender_4_1 =
             Inr [(''total_transmissions'', PyInt 4), (''retransmissions'', PyInt 1),
                  (''efficiency'',
                   PyStr (str_nat (m div 10) @ ''.'' @ str_nat (m mod 10) @ ''%''))] \<and>
      \<bar>of_nat m / 10 - of_int (4 - 1) / of_int 4 * 100\<bar> \<le> (1 / 20 + 1 / 2 ^ 45 :: rat)"
    using inst [THEN conjunct2, THEN conjunct2, THEN conjunct2, THEN conjunct1]
    unfolding s by simp
  then obtain m where m: "sr_get_statistics sr_sender_4_1 =
             Inr [(''total_transmissions'', PyInt 4), (''retransmissions'', PyInt 1),
                  (''efficiency'',
                   PyStr (str_nat (m div 10) @ ''.'' @ str_nat (m mod 10) @ ''%''))]"
      "\<bar>of_nat m / 10 - of_int (4 - 1) / of_int 4 * 100\<bar> \<le> (1 / 20 + 1 / 2 ^ 45 :: rat)"
    by blast
  have w: "\<exists>e. sw_get_statistics sw_sender_4 =
      Inr [(''total_transmissions'', PyInt 4), (''efficiency'', PyStr e)]"
    using inst [THEN conjunct2, THEN conjunct2, THEN conjunct2, THEN conjunct2]
    unfolding t by simp
  from n750 [OF n(2)] n750 [OF m(2)] n(1) m(1) w show ?thesis
    by (simp add: str_nat_75)
qed

lemma half_percent:
  "int_truediv 1 2 = Inr (Float False (1 / 2))"
  "float_mul (Float False (1 / 2)) (Float False 100) = Float False 50"
  "format_1f (Float False 50) = ''50.0''"
  by code_simp+

text \<open>
  C9, counterexample. After two payloads sent by Stop-and-Wait over a fault-free channel
  the dictionary of \<^verbatim>\<open>get_statistics\<close> has two entries and none for the
  retransmission count.
\<close>

theorem sw_statistics_counterexample:
  "sws_total_transmissions sw_two_frames_sender = 2 \<and>
   sw_get_statistics sw_two_frames_sender =
     Inr [(''total_transmissions'', PyInt 2), (''efficiency'', PyStr ''50.0%'')] \<and>
   map_of [(''total_transmissions'', PyInt 2), (''efficiency'', PyStr ''50.0%'')]
     ''retransmissions'' = None"
proof -
  have "sws_total_transmissions sw_two_frames_sender = 2" by code_simp
  then show ?thesis
    by (simp add: sw_get_statistics_def half_percent del: float_mul.simps format_1f.simps)
qed

section \<open>Configuration is not validated\<close>

text \<open>
  C7, as the code has it. Constructing a sender or a receiver never fails: whatever the
  window size and the timeout, the constructor returns the engine with the window size and
  the timeout stored as given.
\<close>

theorem construction_never_fails:
  "StopAndWaitSender_new t = Inr (StopAndWaitSender_init t) \<and>
   sws_timeout (StopAndWaitSender_init t) = t \<and>
   GoBackNSender_new ws t = Inr (GoBackNSender_init ws t) \<and>
   gbs_window_size (GoBackNSender_init ws t) = ws \<and>
   gbs_timeout (GoBackNSender_init ws t) = t \<and>
   SelectiveRepeatSender_new ws t = Inr (SelectiveRepeatSender_init ws t) \<and>
   srs_window_size (SelectiveRepeatSender_init ws t) = ws \<and>
   srs_timeout (SelectiveRepeatSender_init ws t) = t \<and>
   SelectiveRepeatReceiver_new ws = Inr (SelectiveRepeatReceiver_init ws) \<and>
   srr_window_size (SelectiveRepeatReceiver_init ws) = ws"
  by (simp add: StopAndWaitSender_new_def GoBackNSender_new_def SelectiveRepeatSender_new_def
        SelectiveRepeatReceiver_new_def StopAndWaitSender_init_def GoBackNSender_init_def
        SelectiveRepeatSender_init_def SelectiveRepeatReceiver_init_def)

text \<open>
  C7, counterexample. A window of 5 in a sequence space of 8 (more than half of it) and a
  timeout of -1 are accepted: the constructor returns a sender.
\<close>

theorem construction_counterexample:
  "SelectiveRepeatSender_new 5 (- 1) = Inr (SelectiveRepeatSender_init 5 (- 1)) \<and>
   2 * srs_window_size (SelectiveRepeatSender_init 5 (- 1))
     > srs_max_seq_num (SelectiveRepeatSender_init 5 (- 1)) \<and>
   srs_timeout (SelectiveRepeatSender_init 5 (- 1)) < 0 \<and>
   GoBackNSender_new 5 (- 1) = Inr (GoBackNSender_init 5 (- 1)) \<and>
   StopAndWaitSender_new (- 1) = Inr (StopAndWaitSender_init (- 1))"
  by (simp add: StopAndWaitSender_new_def GoBackNSender_new_def SelectiveRepeatSender_new_def
        SelectiveRepeatSender_init_def)

section \<open>Go-Back-N: the cumulative acknowledgment\<close>

text \<open>
  C5. Processing a cumulative ACK for the modular number a should retire the window
  entries from \<open>base\<close> through the first outstanding instance whose modular number is a,
  and move \<open>base\<close> one past the highest retired instance. \<^verbatim>\<open>process_ack\<close> compares
  the unbounded keys and the unbounded \<open>base\<close> with the modular number instead. With
  \<open>base = 1\<close>, instances 1 and 2 outstanding and a repeated ACK 0, it retires both and
  sets \<open>base\<close> to 3, where the specified operation retires nothing. With \<open>base = 8\<close>,
  instances 8, 9, 10 outstanding and ACK 0 (for instance 8), it retires all three and sets
  \<open>base\<close> to 11, where the specified operation retires instance 8 and sets \<open>base\<close>
  to 9. The first state arises in the run of three payloads whose second frame is lost:
  the run ends after three transmissions with an empty window and one payload delivered.
\<close>

theorem gbn_process_ack_retires_unacknowledged:
  "map fst (gbs_window (gbn_process_ack 0 gbn_two_outstanding)) = [] \<and>
   gbs_base (gbn_process_ack 0 gbn_two_outstanding) = 3 \<and>
   gbn_process_ack_spec 0 gbn_two_outstanding = gbn_two_outstanding \<and>
   map fst (gbs_window (gbn_process_ack 0 gbn_wrapped)) = [] \<and>
   gbs_base (gbn_process_ack 0 gbn_wrapped) = 11 \<and>
   map fst (gbs_window (gbn_process_ack_spec 0 gbn_wrapped)) = [9, 10] \<and>
   gbs_base (gbn_process_ack_spec 0 gbn_wrapped) = 9 \<and>
   gbs_window (fst (snd gbn_lossy_run)) = [] \<and>
   gbs_data_buffer (fst (snd gbn_lossy_run)) = [] \<and>
   gbs_total_transmissions (fst (snd gbn_lossy_run)) = 3 \<and>
   gbr_received_frames (fst (snd (snd gbn_lossy_run))) = [''A'']"
  by code_simp

section \<open>Selective Repeat: a delivered frame after the wrap\<close>

text \<open>
  C6. A frame outside the receive window that was already delivered should be
  acknowledged again. After the eight frames 0 to 7 have been delivered the receiver's
  base is 8, and the sender still holds frame 7, whose acknowledgment was lost. Frame 7 is
  then neither in the window nor \<^verbatim>\<open>is_already_delivered\<close> (7 is not below
  \<open>8 mod 8 = 0\<close>): received over a fault-free channel it is discarded and no
  acknowledgment is returned.
\<close>

theorem sr_delivered_frame_not_acknowledged:
  "srr_base (fst (snd sr_wrapped)) = 8 \<and>
   srr_received_frames (fst (snd sr_wrapped)) = payloads8 \<and>
   map (\<lambda>p. (fst p, we_frame (snd p))) (srs_window (fst sr_wrapped))
     = [(7, data_frame 7 ''H'')] \<and>
   \<not> is_in_window (fst (snd sr_wrapped)) 7 \<and>
   \<not> is_already_delivered (fst (snd sr_wrapped)) 7 \<and>
   fst (sr_receive_frame (data_frame 7 ''H'') (fst (snd sr_wrapped)) no_fault_world) = None \<and>
   srr_frames_discarded
     (fst (snd (sr_receive_frame (data_frame 7 ''H'') (fst (snd sr_wrapped)) no_fault_world)))
     = 1"
  by code_simp

section \<open>Selective Repeat: the main loop has no bound\<close>

lemma stuck_prefix: "stuck (sr_send_new (sr_iteration (sr_start t r c)))"
  unfolding sr_start_def payloads8_def ack7_lost_world_def
  by code_simp

lemma first_iteration_not_done:
  "srs_data_buffer (fst (sr_iteration (sr_start t r c))) \<noteq> []"
  unfolding sr_start_def payloads8_def ack7_lost_world_def
  by code_simp

lemma start_not_done: "srs_data_buffer (fst (sr_start t r c)) \<noteq> []"
  by (simp add: sr_start_def payloads8_def sr_add_data_def)

lemma stuck_receive:
  assumes "srr_max_seq_num r = 8" "srr_window_size r = 4" "srr_base r mod 8 = 0"
    and "seq_num f = 7"
  shows "fst (sr_receive_frame f r w) = None"
    and "srr_max_seq_num (fst (snd (sr_receive_frame f r w))) = 8"
    and "srr_window_size (fst (snd (sr_receive_frame f r w))) = 4"
    and "srr_base (fst (snd (sr_receive_frame f r w))) = srr_base r"
    and "srr_buffer (fst (snd (sr_receive_frame f r w))) = srr_buffer r"
    and "srr_received_frames (fst (snd (sr_receive_frame f r w))) = srr_received_frames r"
proof -
  have nw: "\<not> is_in_window (r\<lparr>srr_total_frames_received := srr_total_frames_received r + 1\<rparr>) 7"
    using assms by (simp add: is_in_window_def Let_def mod_add_left_eq [symmetric] add.commute)
  have nd: "\<not> is_already_delivered (r\<lparr>srr_total_frames_received := srr_total_frames_received r + 1\<rparr>) 7"
    using assms by (simp add: is_already_delivered_def)
  show "fst (sr_receive_frame f r w) = None"
    and "srr_max_seq_num (fst (snd (sr_receive_frame f r w))) = 8"
    and "srr_window_size (fst (snd (sr_receive_frame f r w))) = 4"
    and "srr_base (fst (snd (sr_receive_frame f r w))) = srr_base r"
    and "srr_buffer (fst (snd (sr_receive_frame f r w))) = srr_buffer r"
    and "srr_received_frames (fst (snd (sr_receive_frame f r w))) = srr_received_frames r"
    using assms nw nd
    by (simp_all add: sr_receive_frame_def Let_def split: prod.splits)
qed


lemma list_all_update:
  "list_all P al \<Longrightarrow> P (k, v) \<Longrightarrow> list_all P (AList.update k v al)"
  by (induction al) auto

lemma stuck_retransmit:
  assumes "stuck st"
  shows "stuck (selective_retransmit k st)"
proof -
  obtain s r w where st: "st = (s, r, w)" by (cases st) auto
  show ?thesis
  proof (cases "map_of (srs_window s) k")
    case None
    with assms st show ?thesis by (simp add: selective_retransmit_def)
  next
    case (Some e)
    then have "(k, e) \<in> set (srs_window s)" by (rule map_of_SomeD)
    with assms st have e7: "seq_num (we_frame e) = 7"
      by (auto simp: stuck_def list_all_iff)
    from assms st have r: "srr_max_seq_num r = 8" "srr_window_size r = 4" "srr_base r mod 8 = 0"
      "srr_buffer r = []"
      by (simp_all add: stuck_def)
    note rf = stuck_receive [OF r(1-3) e7]
    from assms st have s: "srs_data_buffer s = []"
      "list_all (\<lambda>p. seq_num (we_frame (snd p)) = 7) (srs_window s)"
      by (simp_all add: stuck_def)
    define w2 where "w2 = w\<lparr>clk_pos := Suc (Suc (clk_pos w))\<rparr>"
    obtain a r1 w3 where rcv: "sr_receive_frame (we_frame e) r w2 = (a, r1, w3)"
      by (cases "sr_receive_frame (we_frame e) r w2") auto
    from rf [of w2] rcv r(4) have res: "a = None" "srr_max_seq_num r1 = 8"
      "srr_window_size r1 = 4" "srr_base r1 mod 8 = 0" "srr_buffer r1 = []"
      using r(3) by simp_all
    show ?thesis
      using Some s e7 res rcv
      by (simp add: st selective_retransmit_def stuck_def Let_def time_time_def
            sr_process_acks_def list_all_update w2_def)
  qed
qed

lemma stuck_retransmit_loop: "stuck st \<Longrightarrow> stuck (sr_retransmit_loop ks st)"
  by (induction ks arbitrary: st) (simp_all add: stuck_retransmit)

lemma stuck_time: "stuck (s, r, w) \<Longrightarrow> stuck (s, r, w')"
  by (simp add: stuck_def)

lemma stuck_check: "stuck st \<Longrightarrow> stuck (check_individual_timeouts st)"
  by (cases st) (auto simp: check_individual_timeouts_def Let_def time_time_def
      intro!: stuck_retransmit_loop elim: stuck_time split: prod.splits)

lemma stuck_send_new: "stuck st \<Longrightarrow> sr_send_new st = st"
  by (simp add: sr_send_new.simps sr_can_send_def stuck_def)

lemma slide_window_keeps:
  "srs_data_buffer (slide_window s) = srs_data_buffer s \<and>
   srs_window (slide_window s) = srs_window s"
  by (induction s rule: slide_window.induct) (simp add: slide_window.simps)

lemma stuck_slide: "stuck (s, r, w) \<Longrightarrow> stuck (slide_window s, r, w)"
  by (simp add: stuck_def slide_window_keeps)

lemma stuck_iteration: "stuck st \<Longrightarrow> stuck (sr_iteration st)"
proof -
  assume a: "stuck st"
  then have "stuck (check_individual_timeouts (sr_send_new st))"
    by (simp add: stuck_send_new stuck_check)
  then show ?thesis
    by (cases "check_individual_timeouts (sr_send_new st)")
       (simp add: sr_iteration_def stuck_slide)
qed

lemma stuck_never_returns: "stuck st \<Longrightarrow> sr_send_loop n st = None"
proof (induction n arbitrary: st)
  case 0
  then show ?case by (simp add: stuck_def)
next
  case (Suc n)
  from Suc.prems have "stuck (sr_iteration st)" by (rule stuck_iteration)
  with Suc.IH [of "sr_iteration st"] Suc.prems show ?case
    by (simp add: stuck_def Let_def)
qed

text \<open>
  C1. Every engine's \<^verbatim>\<open>send_frames\<close> should return within an iteration cap. The
  main loop of the Selective Repeat sender has none. With eight payloads and the
  acknowledgment of the eighth frame lost, the loop does not return within any number of
  passes, whatever the later draws, the clock and the timeout: the receiver discards every
  retransmission of frame 7 without an acknowledgment.
\<close>

theorem sr_send_frames_never_returns:
  "sr_send_frames n (sr_add_data payloads8 (SelectiveRepeatSender_init 4 t))
     (SelectiveRepeatReceiver_init 4) (ack7_lost_world r c) = None"
proof -
  have "sr_send_loop n (sr_start t r c) = None"
  proof -
  have s2: "stuck (sr_iteration (sr_iteration (sr_start t r c)))"
  proof -
    have "stuck (check_individual_timeouts (sr_send_new (sr_iteration (sr_start t r c))))"
      using stuck_prefix by (rule stuck_check)
    then show ?thesis
      by (cases "check_individual_timeouts (sr_send_new (sr_iteration (sr_start t r c)))")
         (simp add: sr_iteration_def [of "sr_iteration (sr_start t r c)"] stuck_slide)
  qed
  show ?thesis
  proof (cases n)
    case 0
    then show ?thesis using start_not_done by simp
  next
    case (Suc m)
    show ?thesis
    proof (cases m)
      case 0
      with Suc show ?thesis
        using start_not_done [of t r c] first_iteration_not_done [of t r c]
        by (simp add: Let_def)
    next
      case (Suc k)
      have "sr_send_loop k (sr_iteration (sr_iteration (sr_start t r c))) = None"
        using s2 by (rule stuck_never_returns)
      with s2 Suc \<open>n = Suc m\<close> show ?thesis
        using start_not_done [of t r c] first_iteration_not_done [of t r c]
        by (simp add: Let_def stuck_def)
    qed
  qed
  qed
  then show ?thesis by (simp add: sr_send_frames_def sr_start_def)
qed

section \<open>Selective Repeat: the window invariant\<close>

lemma reach_send_new: "sr_reach st0 st \<Longrightarrow> sr_reach st0 (sr_send_new st)"
proof (induction st rule: sr_send_new.induct)
  case (1 st)
  show ?case
  proof (cases "sr_can_send (fst st)")
    case True
    with 1 show ?thesis by (simp add: sr_send_new.simps [of st] sr_reach.send)
  next
    case False
    with 1 show ?thesis by (simp add: sr_send_new.simps [of st])
  qed
qed

lemma reach_retransmit_loop: "sr_reach st0 st \<Longrightarrow> sr_reach st0 (sr_retransmit_loop ks st)"
  by (induction ks arbitrary: st) (simp_all add: sr_reach.retransmit)

lemma reach_check: "sr_reach st0 st \<Longrightarrow> sr_reach st0 (check_individual_timeouts st)"
proof -
  assume a: "sr_reach st0 st"
  obtain s r w where st: "st = (s, r, w)" by (cases st) auto
  from a st have "sr_reach st0 (s, r, snd (time_time w))" by (simp add: sr_reach.clock)
  then show ?thesis
    by (cases "time_time w")
       (simp add: st check_individual_timeouts_def Let_def reach_retransmit_loop)
qed

lemma reach_slide: "sr_reach st0 (s, r, w) \<Longrightarrow> sr_reach st0 (slide_window s, r, w)"
proof (induction s rule: slide_window.induct)
  case (1 s)
  show ?case
  proof (cases "srs_base s mod srs_max_seq_num s |\<in>| srs_ack_received s")
    case True
    with 1 show ?thesis by (simp add: slide_window.simps [of s] sr_reach.slide)
  next
    case False
    with 1 show ?thesis by (simp add: slide_window.simps [of s])
  qed
qed

lemma reach_iteration: "sr_reach st0 st \<Longrightarrow> sr_reach st0 (sr_iteration st)"
proof -
  assume a: "sr_reach st0 st"
  then have b: "sr_reach st0 (check_individual_timeouts (sr_send_new st))"
    by (simp add: reach_send_new reach_check)
  show ?thesis
    using b by (cases "check_individual_timeouts (sr_send_new st)")
      (simp add: sr_iteration_def reach_slide)
qed

lemma reach_loop:
  "sr_reach st0 st \<Longrightarrow> sr_send_loop n st = Some st' \<Longrightarrow> sr_reach st0 st'"
proof (induction n arbitrary: st)
  case 0
  then show ?case by (simp split: if_splits)
next
  case (Suc n)
  from Suc.prems(1) have "sr_reach st0 (sr_iteration st)" by (rule reach_iteration)
  with Suc show ?case by (auto simp: Let_def split: if_splits)
qed

lemma reach_iterations: "sr_reach st0 ((sr_iteration ^^ n) st0)"
  by (induction n) (simp_all add: sr_reach.start reach_iteration)

lemma map_of_fold_delete:
  "map_of (fold AList.delete ks al) k = (if k \<in> set ks then None else map_of al k)"
  by (induction ks arbitrary: al) (auto simp: AList.delete_conv')

lemma mod8_succ: "(x + 1) mod 8 = (if x mod 8 = 7 then 0 else x mod 8 + 1)" for x :: int
proof -
  have e: "(x + 1) mod 8 = (x mod 8 + 1) mod 8" by (simp add: mod_add_left_eq)
  have r: "0 \<le> x mod 8" "x mod 8 < 8" by simp_all
  show ?thesis
  proof (cases "x mod 8 = 7")
    case True
    with e show ?thesis by simp
  next
    case False
    with r have "x mod 8 + 1 < 8" by linarith
    with r(1) have "(x mod 8 + 1) mod 8 = x mod 8 + 1" by (intro mod_pos_pos_trivial) linarith+
    with e False show ?thesis by simp
  qed
qed

lemma mod8_pred: "x mod 8 \<noteq> 0 \<Longrightarrow> (x - 1) mod 8 = x mod 8 - 1" for x :: int
proof -
  assume a: "x mod 8 \<noteq> 0"
  have e: "(x - 1) mod 8 = (x mod 8 - 1) mod 8" by (simp add: mod_diff_left_eq)
  have r: "0 \<le> x mod 8" "x mod 8 < 8" by simp_all
  with a have "0 \<le> x mod 8 - 1" "x mod 8 - 1 < 8" by linarith+
  then have "(x mod 8 - 1) mod 8 = x mod 8 - 1" by (intro mod_pos_pos_trivial)
  with e show ?thesis by simp
qed

lemma mod8_small: "0 \<le> x \<Longrightarrow> x < 8 \<Longrightarrow> x mod 8 = x" for x :: int
  by simp

lemma mod8_above: "8 \<le> x \<Longrightarrow> x < 16 \<Longrightarrow> x mod 8 = x - 8" for x :: int
proof -
  assume a: "8 \<le> x" "x < 16"
  have "(x - 8) mod 8 = x - 8" using a by (intro mod_pos_pos_trivial) linarith+
  moreover have "(x - 8) mod 8 = x mod 8" by (rule minus_mod_self2)
  ultimately show ?thesis by simp
qed

lemma mod8_below: "- 8 \<le> x \<Longrightarrow> x < 0 \<Longrightarrow> x mod 8 = x + 8" for x :: int
proof -
  assume a: "- 8 \<le> x" "x < 0"
  have "(x + 8) mod 8 = x + 8" using a by (intro mod_pos_pos_trivial) linarith+
  moreover have "(x + 8) mod 8 = x mod 8" by (rule mod_add_self2)
  ultimately show ?thesis by simp
qed

lemma window_test_iff:
  fixes b' w q :: int
  assumes "0 \<le> q" "q < 8" "0 \<le> b'" "b' < 8" "1 \<le> w" "w \<le> 8"
  shows "(if b' \<le> (b' + w - 1) mod 8 then b' \<le> q \<and> q \<le> (b' + w - 1) mod 8
          else q \<ge> b' \<or> q \<le> (b' + w - 1) mod 8)
         \<longleftrightarrow> (q - b') mod 8 < w"
proof (cases "b' + w - 1 < 8")
  case True
  with assms have e: "(b' + w - 1) mod 8 = b' + w - 1" by simp
  show ?thesis
  proof (cases "b' \<le> q")
    case True
    with assms have "(q - b') mod 8 = q - b'" by simp
    with e assms True show ?thesis by auto
  next
    case False
    with assms have "(q - b') mod 8 = q - b' + 8" by (simp add: mod8_below)
    with e assms False \<open>b' + w - 1 < 8\<close> show ?thesis by auto
  qed
next
  case False
  with assms have e: "(b' + w - 1) mod 8 = b' + w - 9" by (simp add: mod8_above)
  show ?thesis
  proof (cases "b' \<le> q")
    case True
    with assms have "(q - b') mod 8 = q - b'" by simp
    with e assms True \<open>\<not> b' + w - 1 < 8\<close> show ?thesis by auto
  next
    case False
    with assms have "(q - b') mod 8 = q - b' + 8" by (simp add: mod8_below)
    with e assms False \<open>\<not> b' + w - 1 < 8\<close> show ?thesis by auto
  qed
qed

lemma residue_offset:
  fixes k b :: int
  shows "(k mod 8 - b mod 8) mod 8 = (k - b) mod 8"
  by (simp add: mod_diff_eq)

lemma offset_nonneg: "b \<le> k \<Longrightarrow> k < b + 8 \<Longrightarrow> (k - b) mod 8 = k - b" for k b :: int
  by simp

lemma offset_neg: "b - 8 \<le> k \<Longrightarrow> k < b \<Longrightarrow> (k - b) mod 8 = k - b + 8" for k b :: int
  by (simp add: mod8_below)

lemma same_residue_close:
  fixes k p :: int
  assumes "k mod 8 = p mod 8" "\<bar>k - p\<bar> < 8"
  shows "k = p"
proof -
  have "(k - p) mod 8 = (k mod 8 - p mod 8) mod 8" by (simp add: mod_diff_eq)
  with assms(1) have "(k - p) mod 8 = 0" by simp
  then have "8 dvd (k - p)" by (simp add: dvd_eq_mod_eq_0)
  then obtain c where c: "k - p = 8 * c" by (auto simp: dvd_def)
  with assms(2) have "\<bar>8 * c\<bar> < 8" by simp
  then have "c = 0" by (simp add: abs_mult)
  with c show ?thesis by simp
qed

lemma in_window_arith_aux:
  fixes b' e q :: int
  assumes "0 \<le> q" "q < 8" "q \<noteq> b'" "0 \<le> b'" "b' < 8" "0 \<le> e" "e < 8"
    and "if b' \<le> e then b' \<le> q \<and> q \<le> e else q \<ge> b' \<or> q \<le> e"
  shows "if (if b' = 7 then 0 else b' + 1) \<le> (if e = 7 then 0 else e + 1)
         then (if b' = 7 then 0 else b' + 1) \<le> q \<and> q \<le> (if e = 7 then 0 else e + 1)
         else q \<ge> (if b' = 7 then 0 else b' + 1) \<or> q \<le> (if e = 7 then 0 else e + 1)"
proof (cases "b' = 7")
  case True
  show ?thesis
  proof (cases "e = 7")
    case True
    with \<open>b' = 7\<close> assms show ?thesis by simp
  next
    case False
    with \<open>b' = 7\<close> assms show ?thesis by (simp split: if_splits)
  qed
next
  case False
  show ?thesis
  proof (cases "e = 7")
    case True
    with \<open>b' \<noteq> 7\<close> assms show ?thesis by (simp split: if_splits)
  next
    case False
    with \<open>b' \<noteq> 7\<close> assms show ?thesis by (simp split: if_splits) linarith+
  qed
qed

lemma in_window_arith:
  fixes b w q :: int
  assumes "0 \<le> q" "q < 8" "q \<noteq> b mod 8"
    and "if b mod 8 \<le> (b + w - 1) mod 8 then b mod 8 \<le> q \<and> q \<le> (b + w - 1) mod 8
         else q \<ge> b mod 8 \<or> q \<le> (b + w - 1) mod 8"
  shows "if (b + 1) mod 8 \<le> (b + 1 + w - 1) mod 8
         then (b + 1) mod 8 \<le> q \<and> q \<le> (b + 1 + w - 1) mod 8
         else q \<ge> (b + 1) mod 8 \<or> q \<le> (b + 1 + w - 1) mod 8"
proof -
  have e: "(b + 1 + w - 1) mod 8 = (if (b + w - 1) mod 8 = 7 then 0 else (b + w - 1) mod 8 + 1)"
    using mod8_succ [of "b + w - 1"] by (simp add: algebra_simps)
  show ?thesis
    unfolding e mod8_succ [of b]
    by (rule in_window_arith_aux) (use assms in simp_all)
qed

lemma is_in_window_upd [simp]:
  "is_in_window (r\<lparr>srr_total_frames_received := a\<rparr>) q = is_in_window r q"
  "is_in_window (r\<lparr>srr_frames_discarded := b\<rparr>) q = is_in_window r q"
  "is_in_window (r\<lparr>srr_duplicate_frames := c\<rparr>) q = is_in_window r q"
  "is_in_window (r\<lparr>srr_buffer := d\<rparr>) q = is_in_window r q"
  "is_in_window (r\<lparr>srr_received_frames := e\<rparr>) q = is_in_window r q"
  by (simp_all add: is_in_window_def)

lemma is_already_delivered_upd [simp]:
  "is_already_delivered (r\<lparr>srr_total_frames_received := a\<rparr>) q = is_already_delivered r q"
  by (simp add: is_already_delivered_def)

lemma is_in_window_8:
  assumes "srr_max_seq_num r = 8"
  shows "is_in_window r q \<longleftrightarrow>
     (if srr_base r mod 8 \<le> (srr_base r + srr_window_size r - 1) mod 8
      then srr_base r mod 8 \<le> q \<and> q \<le> (srr_base r + srr_window_size r - 1) mod 8
      else q \<ge> srr_base r mod 8 \<or> q \<le> (srr_base r + srr_window_size r - 1) mod 8)"
  unfolding is_in_window_def Let_def assms ..

lemma sr_receive_frame_cases [case_names lost corrupted in_window delivered discarded]:
  obtains
    (lost) w1 where
      "sr_receive_frame f r w =
         (None, r\<lparr>srr_total_frames_received := srr_total_frames_received r + 1\<rparr>, w1)"
  | (corrupted) w2 where
      "sr_receive_frame f r w =
         (None, r\<lparr>srr_total_frames_received := srr_total_frames_received r + 1,
                  srr_frames_discarded := srr_frames_discarded r + 1\<rparr>, w2)"
  | (in_window) a w3 where "is_in_window r (seq_num f)"
      "sr_receive_frame f r w =
         (Some (if a then [seq_num f] else []),
          deliver_frames
            (if map_of (srr_buffer r) (seq_num f) \<noteq> None
             then r\<lparr>srr_total_frames_received := srr_total_frames_received r + 1,
                    srr_duplicate_frames := srr_duplicate_frames r + 1\<rparr>
             else r\<lparr>srr_total_frames_received := srr_total_frames_received r + 1,
                    srr_buffer := AList.update (seq_num f) (data f) (srr_buffer r)\<rparr>), w3)"
  | (delivered) a w3 where "\<not> is_in_window r (seq_num f)" "is_already_delivered r (seq_num f)"
      "sr_receive_frame f r w =
         (if a then Some [seq_num f] else None,
          r\<lparr>srr_total_frames_received := srr_total_frames_received r + 1\<rparr>, w3)"
  | (discarded) w2 where "\<not> is_in_window r (seq_num f)" "\<not> is_already_delivered r (seq_num f)"
      "sr_receive_frame f r w =
         (None, r\<lparr>srr_total_frames_received := srr_total_frames_received r + 1,
                  srr_frames_discarded := srr_frames_discarded r + 1\<rparr>, w2)"
proof -
  note defs = sr_receive_frame_def Let_def random_random_def is_corrupted_def send_ack_def
  show ?thesis
  proof (cases "rnd w (rnd_pos w) < 15 / 100")
    case True
    then show ?thesis by (intro lost) (simp add: defs)
  next
    case nl: False
    show ?thesis
    proof (cases "rnd w (Suc (rnd_pos w)) < 1 / 10")
      case True
      with nl show ?thesis by (intro corrupted) (simp add: defs)
    next
      case nc: False
      show ?thesis
      proof (cases "is_in_window r (seq_num f)")
        case True
        with nl nc show ?thesis
          by (intro in_window [of "\<not> rnd w (Suc (Suc (rnd_pos w))) < 1 / 10"])
             (simp_all add: defs)
      next
        case nw: False
        show ?thesis
        proof (cases "is_already_delivered r (seq_num f)")
          case True
          with nl nc nw show ?thesis
            by (intro delivered [of "\<not> rnd w (Suc (Suc (rnd_pos w))) < 1 / 10"])
               (simp_all add: defs)
        next
          case False
          with nl nc nw show ?thesis by (intro discarded) (simp_all add: defs)
        qed
      qed
    qed
  qed
qed

lemma rcv_buf_inv_upd [simp]:
  "rcv_buf_inv (r\<lparr>srr_total_frames_received := a\<rparr>) = rcv_buf_inv r"
  "rcv_buf_inv (r\<lparr>srr_frames_discarded := b\<rparr>) = rcv_buf_inv r"
  "rcv_buf_inv (r\<lparr>srr_duplicate_frames := c\<rparr>) = rcv_buf_inv r"
  by (simp_all add: rcv_buf_inv_def)

lemma deliver_frames_buf_inv: "rcv_buf_inv r \<Longrightarrow> rcv_buf_inv (deliver_frames r)"
proof (induction r rule: deliver_frames.induct)
  case (1 r)
  show ?case
  proof (cases "map_of (srr_buffer r) (srr_base r mod srr_max_seq_num r)")
    case None
    with 1 show ?thesis by (simp add: deliver_frames.simps [of r])
  next
    case (Some d)
    let ?r' = "r\<lparr>srr_received_frames := srr_received_frames r @ [d],
               srr_buffer := AList.delete (srr_base r mod srr_max_seq_num r) (srr_buffer r),
               srr_base := srr_base r + 1\<rparr>"
    from "1.prems" have m: "srr_max_seq_num r = 8" by (simp add: rcv_buf_inv_def)
    have m': "srr_max_seq_num ?r' = 8" using m by simp
    have "rcv_buf_inv ?r'"
      unfolding rcv_buf_inv_def
    proof (intro conjI allI impI)
      show "srr_max_seq_num ?r' = 8" by (rule m')
    next
      fix q d'
      assume a: "map_of (srr_buffer ?r') q = Some d'"
      then have ne: "q \<noteq> srr_base r mod 8" and old: "map_of (srr_buffer r) q = Some d'"
        using m by (auto simp: AList.delete_conv' split: if_splits)
      from "1.prems" old have q: "0 \<le> q" "q < 8" "is_in_window r q"
        by (auto simp: rcv_buf_inv_def)
      show "0 \<le> q" "q < 8" by fact+
      from q(3) have t: 
        "if srr_base r mod 8 \<le> (srr_base r + srr_window_size r - 1) mod 8
         then srr_base r mod 8 \<le> q \<and> q \<le> (srr_base r + srr_window_size r - 1) mod 8
         else q \<ge> srr_base r mod 8 \<or> q \<le> (srr_base r + srr_window_size r - 1) mod 8"
        by (simp only: is_in_window_8 [OF m])
      have "is_in_window ?r' q \<longleftrightarrow>
          (if (srr_base r + 1) mod 8 \<le> (srr_base r + 1 + srr_window_size r - 1) mod 8
           then (srr_base r + 1) mod 8 \<le> q \<and> q \<le> (srr_base r + 1 + srr_window_size r - 1) mod 8
           else q \<ge> (srr_base r + 1) mod 8 \<or> q \<le> (srr_base r + 1 + srr_window_size r - 1) mod 8)"
        unfolding is_in_window_8 [OF m'] by simp
      with in_window_arith [OF q(1,2) ne t]
      show "is_in_window ?r' q" by simp
    qed
    with "1.IH" [OF Some] Some show ?thesis by (simp add: deliver_frames.simps [of r])
  qed
qed

lemma receive_frame_buf_inv:
  assumes "rcv_buf_inv r" "0 \<le> seq_num f" "seq_num f < 8"
  shows "rcv_buf_inv (fst (snd (sr_receive_frame f r w)))"
proof (cases rule: sr_receive_frame_cases [of f r w])
  case (lost w1)
  with assms show ?thesis by simp
next
  case (corrupted w2)
  with assms show ?thesis by simp
next
  case (in_window a w3)
  have "rcv_buf_inv
          (r\<lparr>srr_total_frames_received := srr_total_frames_received r + 1,
             srr_buffer := AList.update (seq_num f) (data f) (srr_buffer r)\<rparr>)"
    unfolding rcv_buf_inv_def
  proof (intro conjI allI impI)
    fix q d
    assume "map_of (srr_buffer (r\<lparr>srr_total_frames_received := srr_total_frames_received r + 1,
             srr_buffer := AList.update (seq_num f) (data f) (srr_buffer r)\<rparr>)) q = Some d"
    then have "q = seq_num f \<or> map_of (srr_buffer r) q = Some d"
      by (auto simp: AList.update_conv' split: if_splits)
    with assms in_window(1)
    show "0 \<le> q" "q < 8"
      "is_in_window (r\<lparr>srr_total_frames_received := srr_total_frames_received r + 1,
             srr_buffer := AList.update (seq_num f) (data f) (srr_buffer r)\<rparr>) q"
      by (auto simp: rcv_buf_inv_def)
  qed (use assms in \<open>simp add: rcv_buf_inv_def\<close>)
  with assms(1) in_window(2) show ?thesis
    by (simp add: deliver_frames_buf_inv)
next
  case (delivered a w3)
  with assms show ?thesis by simp
next
  case (discarded w2)
  with assms show ?thesis by simp
qed

lemma receive_frame_acks:
  "fst (sr_receive_frame f r w) = None \<or> fst (sr_receive_frame f r w) = Some [] \<or>
   fst (sr_receive_frame f r w) = Some [seq_num f]"
  by (cases rule: sr_receive_frame_cases [of f r w]) auto

lemma snd_win_inv_upd [simp]:
  "snd_win_inv nx (s\<lparr>srs_total_transmissions := a\<rparr>) = snd_win_inv nx s"
  "snd_win_inv nx (s\<lparr>srs_retransmissions := b\<rparr>) = snd_win_inv nx s"
  "snd_win_inv nx (s\<lparr>srs_individual_timers := c\<rparr>) = snd_win_inv nx s"
  "snd_win_inv nx (s\<lparr>srs_data_buffer := d\<rparr>) = snd_win_inv nx s"
  "snd_win_inv nx (s\<lparr>srs_next_seq_num := e\<rparr>) = snd_win_inv nx s"
  by (simp_all add: snd_win_inv_def)

lemma residue_of_first_instance:
  fixes b a :: int
  assumes "0 \<le> a" "a < 8"
  shows "(b + (a - b) mod 8) mod 8 = a"
proof -
  have "(b + (a - b) mod 8) mod 8 = (b + (a - b)) mod 8" by (simp add: mod_add_right_eq)
  also have "\<dots> = a mod 8" by simp
  also have "\<dots> = a" using assms by simp
  finally show ?thesis .
qed

lemma process_ack_win_inv:
  assumes inv: "snd_win_inv nx s" and k: "map_of (srs_window s) k = Some e"
  shows "snd_win_inv nx (sr_process_ack (k mod 8) s)"
proof -
  let ?rm = "filter (\<lambda>k'. k' mod 8 = k mod 8) (map fst (srs_window s))"
  from inv have m: "srs_max_seq_num s = 8" by (simp add: snd_win_inv_def)
  have s': "sr_process_ack (k mod 8) s =
      s\<lparr>srs_ack_received := finsert (k mod 8) (srs_ack_received s),
        srs_window := fold AList.delete ?rm (srs_window s),
        srs_individual_timers := fold AList.delete ?rm (srs_individual_timers s)\<rparr>"
    by (simp add: sr_process_ack_def Let_def m)
  have win: "map_of (fold AList.delete ?rm (srs_window s)) k' =
      (if k' mod 8 = k mod 8 then None else map_of (srs_window s) k')" for k'
    by (auto simp: map_of_fold_delete map_of_eq_None_iff [symmetric])
  from inv k have kb: "srs_base s \<le> k" "k < nx" by (auto simp: snd_win_inv_def)
  have p_le: "srs_base s + (k mod 8 - srs_base s) mod 8 \<le> k"
  proof -
    have "(k mod 8 - srs_base s) mod 8 = (k - srs_base s) mod 8"
      by (simp add: mod_diff_left_eq)
    also have "\<dots> \<le> k - srs_base s" using kb by (intro zmod_le_nonneg_dividend) simp
    finally show ?thesis by simp
  qed
  have p_res: "(srs_base s + (k mod 8 - srs_base s) mod 8) mod 8 = k mod 8"
    by (rule residue_of_first_instance) simp_all
  show ?thesis
    unfolding s' snd_win_inv_def
  proof (intro conjI allI impI)
    fix a
    assume "a |\<in>| srs_ack_received
        (s\<lparr>srs_ack_received := finsert (k mod 8) (srs_ack_received s),
           srs_window := fold AList.delete ?rm (srs_window s),
           srs_individual_timers := fold AList.delete ?rm (srs_individual_timers s)\<rparr>)"
    then consider "a = k mod 8" | "a |\<in>| srs_ack_received s" by auto
    then have "0 \<le> a \<and> a < 8 \<and> srs_base s + (a - srs_base s) mod 8 < nx \<and>
        map_of (fold AList.delete ?rm (srs_window s)) (srs_base s + (a - srs_base s) mod 8) = None"
    proof cases
      case 1
      with p_le kb p_res show ?thesis by (simp add: win)
    next
      case 2
      with inv show ?thesis by (simp add: snd_win_inv_def win)
    qed
    then show "0 \<le> a" "a < 8"
      "srs_base (s\<lparr>srs_ack_received := finsert (k mod 8) (srs_ack_received s),
           srs_window := fold AList.delete ?rm (srs_window s),
           srs_individual_timers := fold AList.delete ?rm (srs_individual_timers s)\<rparr>)
        + (a - srs_base (s\<lparr>srs_ack_received := finsert (k mod 8) (srs_ack_received s),
           srs_window := fold AList.delete ?rm (srs_window s),
           srs_individual_timers := fold AList.delete ?rm (srs_individual_timers s)\<rparr>)) mod 8 < nx"
      "map_of (srs_window (s\<lparr>srs_ack_received := finsert (k mod 8) (srs_ack_received s),
           srs_window := fold AList.delete ?rm (srs_window s),
           srs_individual_timers := fold AList.delete ?rm (srs_individual_timers s)\<rparr>))
         (srs_base (s\<lparr>srs_ack_received := finsert (k mod 8) (srs_ack_received s),
           srs_window := fold AList.delete ?rm (srs_window s),
           srs_individual_timers := fold AList.delete ?rm (srs_individual_timers s)\<rparr>)
        + (a - srs_base (s\<lparr>srs_ack_received := finsert (k mod 8) (srs_ack_received s),
           srs_window := fold AList.delete ?rm (srs_window s),
           srs_individual_timers := fold AList.delete ?rm (srs_individual_timers s)\<rparr>)) mod 8) = None"
      by simp_all
  next
    fix k' e'
    assume "map_of (srs_window (s\<lparr>srs_ack_received := finsert (k mod 8) (srs_ack_received s),
           srs_window := fold AList.delete ?rm (srs_window s),
           srs_individual_timers := fold AList.delete ?rm (srs_individual_timers s)\<rparr>)) k' = Some e'"
    then have "map_of (srs_window s) k' = Some e'" by (simp add: win split: if_splits)
    with inv show "srs_base (s\<lparr>srs_ack_received := finsert (k mod 8) (srs_ack_received s),
           srs_window := fold AList.delete ?rm (srs_window s),
           srs_individual_timers := fold AList.delete ?rm (srs_individual_timers s)\<rparr>) \<le> k'"
      "k' < nx" "seq_num (we_frame e') = k' mod 8"
      by (auto simp: snd_win_inv_def)
  qed (use inv in \<open>simp_all add: snd_win_inv_def\<close>)
qed

lemma process_acks_win_inv:
  assumes "snd_win_inv nx s" "map_of (srs_window s) k = Some e"
    and "a = None \<or> a = Some [] \<or> a = Some [k mod 8]"
  shows "snd_win_inv nx (sr_process_acks a s)"
  using assms by (auto simp: sr_process_acks_def process_ack_win_inv)

lemma snd_win_invI:
  assumes "srs_max_seq_num s = 8" "srs_base s \<le> nx" "nx \<le> srs_base s + srs_window_size s"
    and "\<And>k e. map_of (srs_window s) k = Some e \<Longrightarrow>
           srs_base s \<le> k \<and> k < nx \<and> seq_num (we_frame e) = k mod 8"
    and "\<And>a. a |\<in>| srs_ack_received s \<Longrightarrow>
           0 \<le> a \<and> a < 8 \<and> srs_base s + (a - srs_base s) mod 8 < nx \<and>
           map_of (srs_window s) (srs_base s + (a - srs_base s) mod 8) = None"
  shows "snd_win_inv nx s"
  using assms unfolding snd_win_inv_def by blast

lemma snd_win_inv_cong:
  "srs_max_seq_num s' = srs_max_seq_num s \<Longrightarrow> srs_base s' = srs_base s \<Longrightarrow>
   srs_window_size s' = srs_window_size s \<Longrightarrow> srs_window s' = srs_window s \<Longrightarrow>
   srs_ack_received s' = srs_ack_received s \<Longrightarrow> snd_win_inv nx s' = snd_win_inv nx s"
  by (simp add: snd_win_inv_def)

lemma snd_win_inv_key:
  "snd_win_inv nx s \<Longrightarrow> map_of (srs_window s) k = Some e \<Longrightarrow>
     srs_base s \<le> k \<and> k < nx \<and> seq_num (we_frame e) = k mod 8"
  unfolding snd_win_inv_def by blast

lemma snd_win_inv_ack:
  "snd_win_inv nx s \<Longrightarrow> a |\<in>| srs_ack_received s \<Longrightarrow>
     0 \<le> a \<and> a < 8 \<and> srs_base s + (a - srs_base s) mod 8 < nx \<and>
     map_of (srs_window s) (srs_base s + (a - srs_base s) mod 8) = None"
  unfolding snd_win_inv_def by blast

lemma timestamp_update_win_inv:
  assumes "snd_win_inv nx s" "map_of (srs_window s) k = Some e"
  shows "snd_win_inv nx
           (s\<lparr>srs_window := AList.update k (e\<lparr>we_timestamp := t\<rparr>) (srs_window s)\<rparr>)"
proof (rule snd_win_invI)
  fix k' e'
  assume "map_of (srs_window
      (s\<lparr>srs_window := AList.update k (e\<lparr>we_timestamp := t\<rparr>) (srs_window s)\<rparr>)) k' = Some e'"
  then have "(k' = k \<and> e' = e\<lparr>we_timestamp := t\<rparr>) \<or> map_of (srs_window s) k' = Some e'"
    by (auto simp: AList.update_conv' split: if_splits)
  with assms show "srs_base
      (s\<lparr>srs_window := AList.update k (e\<lparr>we_timestamp := t\<rparr>) (srs_window s)\<rparr>) \<le> k' \<and>
      k' < nx \<and> seq_num (we_frame e') = k' mod 8"
    by (auto simp: snd_win_inv_def)
next
  fix a
  assume "a |\<in>| srs_ack_received
      (s\<lparr>srs_window := AList.update k (e\<lparr>we_timestamp := t\<rparr>) (srs_window s)\<rparr>)"
  with assms(1) have a: "0 \<le> a" "a < 8" "srs_base s + (a - srs_base s) mod 8 < nx"
    "map_of (srs_window s) (srs_base s + (a - srs_base s) mod 8) = None"
    by (auto simp: snd_win_inv_def)
  with assms(2) have "srs_base s + (a - srs_base s) mod 8 \<noteq> k" by auto
  with a show "0 \<le> a \<and> a < 8 \<and>
      srs_base (s\<lparr>srs_window := AList.update k (e\<lparr>we_timestamp := t\<rparr>) (srs_window s)\<rparr>)
        + (a - srs_base
            (s\<lparr>srs_window := AList.update k (e\<lparr>we_timestamp := t\<rparr>) (srs_window s)\<rparr>)) mod 8
        < nx \<and>
      map_of (srs_window
          (s\<lparr>srs_window := AList.update k (e\<lparr>we_timestamp := t\<rparr>) (srs_window s)\<rparr>))
        (srs_base (s\<lparr>srs_window := AList.update k (e\<lparr>we_timestamp := t\<rparr>) (srs_window s)\<rparr>)
          + (a - srs_base
              (s\<lparr>srs_window := AList.update k (e\<lparr>we_timestamp := t\<rparr>) (srs_window s)\<rparr>))
            mod 8) = None"
    by (simp add: AList.update_conv')
qed (use assms(1) in \<open>simp_all add: snd_win_inv_def\<close>)

lemma selective_retransmit_unfold:
  assumes "map_of (srs_window s) k = Some e"
  shows "selective_retransmit k (s, r, w) =
    (let w2 = w\<lparr>clk_pos := Suc (Suc (clk_pos w))\<rparr>;
         s3 = s\<lparr>srs_total_transmissions := srs_total_transmissions s + 1,
                srs_retransmissions := srs_retransmissions s + 1,
                srs_window :=
                  AList.update k (e\<lparr>we_timestamp := clk w (clk_pos w)\<rparr>) (srs_window s),
                srs_individual_timers :=
                  AList.update k (clk w (Suc (clk_pos w))) (srs_individual_timers s)\<rparr>;
         res = sr_receive_frame (we_frame e) r w2
     in (sr_process_acks (fst res) s3, fst (snd res), snd (snd res)))"
  using assms
  by (simp add: selective_retransmit_def Let_def time_time_def split: prod.splits)

lemma retransmit_window_inv:
  assumes "sr_window_inv st"
  shows "sr_window_inv (selective_retransmit k st)"
proof -
  obtain s r w where st: "st = (s, r, w)" by (cases st) auto
  show ?thesis
  proof (cases "map_of (srs_window s) k")
    case None
    with assms st show ?thesis by (simp add: selective_retransmit_def)
  next
    case (Some e)
    let ?w2 = "w\<lparr>clk_pos := Suc (Suc (clk_pos w))\<rparr>"
    let ?s2 = "s\<lparr>srs_window :=
                  AList.update k (e\<lparr>we_timestamp := clk w (clk_pos w)\<rparr>) (srs_window s)\<rparr>"
    let ?s3 = "s\<lparr>srs_total_transmissions := srs_total_transmissions s + 1,
                srs_retransmissions := srs_retransmissions s + 1,
                srs_window :=
                  AList.update k (e\<lparr>we_timestamp := clk w (clk_pos w)\<rparr>) (srs_window s),
                srs_individual_timers :=
                  AList.update k (clk w (Suc (clk_pos w))) (srs_individual_timers s)\<rparr>"
    let ?res = "sr_receive_frame (we_frame e) r ?w2"
    from assms st have si: "snd_win_inv (srs_next_seq_num s) s" and ri: "rcv_buf_inv r"
      by (simp_all add: sr_window_inv_def)
    from si Some have sq: "seq_num (we_frame e) = k mod 8" by (auto simp: snd_win_inv_def)
    have "snd_win_inv (srs_next_seq_num s) ?s2"
      using si Some by (rule timestamp_update_win_inv)
    moreover have "snd_win_inv (srs_next_seq_num s) ?s3 = snd_win_inv (srs_next_seq_num s) ?s2"
      by (rule snd_win_inv_cong) simp_all
    ultimately have s3: "snd_win_inv (srs_next_seq_num s) ?s3" by simp
    have k3: "map_of (srs_window ?s3) k = Some (e\<lparr>we_timestamp := clk w (clk_pos w)\<rparr>)"
      by (simp add: AList.update_conv')
    have acks: "fst ?res = None \<or> fst ?res = Some [] \<or> fst ?res = Some [k mod 8]"
      using receive_frame_acks [of "we_frame e" r ?w2] sq by simp
    have a: "snd_win_inv (srs_next_seq_num s) (sr_process_acks (fst ?res) ?s3)"
      using s3 k3 acks by (rule process_acks_win_inv)
    have nx: "srs_next_seq_num (sr_process_acks (fst ?res) ?s3) = srs_next_seq_num s"
      using acks by (auto simp: sr_process_acks_def sr_process_ack_def Let_def)
    have b: "rcv_buf_inv (fst (snd ?res))"
      using ri sq by (intro receive_frame_buf_inv) simp_all
    show ?thesis
      using a b nx
      by (simp add: st selective_retransmit_unfold [OF Some] Let_def sr_window_inv_def)
  qed
qed

lemma sr_process_acks_next [simp]:
  "srs_next_seq_num (sr_process_acks a s) = srs_next_seq_num s"
proof (cases a)
  case None
  then show ?thesis by (simp add: sr_process_acks_def)
next
  case (Some ns)
  have "srs_next_seq_num (fold sr_process_ack ns s) = srs_next_seq_num s"
    by (induction ns arbitrary: s) (simp_all add: sr_process_ack_def Let_def)
  with Some show ?thesis by (simp add: sr_process_acks_def)
qed

lemma sr_send_one_unfold:
  "sr_send_one (s, r, w) =
    (let d = hd (srs_data_buffer s);
         f = data_frame (srs_next_seq_num s mod srs_max_seq_num s) d;
         w2 = w\<lparr>clk_pos := Suc (Suc (clk_pos w))\<rparr>;
         s3 = s\<lparr>srs_data_buffer := tl (srs_data_buffer s),
                srs_window :=
                  AList.update (srs_next_seq_num s)
                    \<lparr>we_frame = f, we_timestamp = clk w (clk_pos w), we_data = d\<rparr>
                    (srs_window s),
                srs_individual_timers :=
                  AList.update (srs_next_seq_num s) (clk w (Suc (clk_pos w)))
                    (srs_individual_timers s),
                srs_total_transmissions := srs_total_transmissions s + 1\<rparr>;
         res = sr_receive_frame f r w2;
         s4 = sr_process_acks (fst res) s3
     in (s4\<lparr>srs_next_seq_num := srs_next_seq_num s + 1\<rparr>, fst (snd res), snd (snd res)))"
  by (simp add: sr_send_one_def Let_def time_time_def split: prod.splits)

lemma admit_win_inv:
  assumes inv: "snd_win_inv n s" and can: "n < srs_base s + srs_window_size s"
    and f: "seq_num (we_frame e) = n mod 8"
  shows "snd_win_inv (n + 1) (s\<lparr>srs_window := AList.update n e (srs_window s)\<rparr>)"
proof (rule snd_win_invI)
  fix k' e'
  assume "map_of (srs_window (s\<lparr>srs_window := AList.update n e (srs_window s)\<rparr>)) k' = Some e'"
  then have "(k' = n \<and> e' = e) \<or> map_of (srs_window s) k' = Some e'"
    by (auto simp: AList.update_conv' split: if_splits)
  then show "srs_base (s\<lparr>srs_window := AList.update n e (srs_window s)\<rparr>) \<le> k' \<and>
      k' < n + 1 \<and> seq_num (we_frame e') = k' mod 8"
  proof
    assume "k' = n \<and> e' = e"
    with inv f show ?thesis by (simp add: snd_win_inv_def)
  next
    assume "map_of (srs_window s) k' = Some e'"
    from snd_win_inv_key [OF inv this] show ?thesis by simp
  qed
next
  fix a
  assume "a |\<in>| srs_ack_received (s\<lparr>srs_window := AList.update n e (srs_window s)\<rparr>)"
  with inv have a: "0 \<le> a" "a < 8" "srs_base s + (a - srs_base s) mod 8 < n"
    "map_of (srs_window s) (srs_base s + (a - srs_base s) mod 8) = None"
    by (auto simp: snd_win_inv_def)
  then show "0 \<le> a \<and> a < 8 \<and>
      srs_base (s\<lparr>srs_window := AList.update n e (srs_window s)\<rparr>)
        + (a - srs_base (s\<lparr>srs_window := AList.update n e (srs_window s)\<rparr>)) mod 8 < n + 1 \<and>
      map_of (srs_window (s\<lparr>srs_window := AList.update n e (srs_window s)\<rparr>))
        (srs_base (s\<lparr>srs_window := AList.update n e (srs_window s)\<rparr>)
          + (a - srs_base (s\<lparr>srs_window := AList.update n e (srs_window s)\<rparr>)) mod 8) = None"
    by (simp add: AList.update_conv')
qed (use inv can in \<open>simp_all add: snd_win_inv_def\<close>)

lemma send_one_window_inv:
  assumes "sr_window_inv st" "sr_can_send (fst st)"
  shows "sr_window_inv (sr_send_one st)"
proof -
  obtain s r w where st: "st = (s, r, w)" by (cases st) auto
  let ?n = "srs_next_seq_num s"
  let ?d = "hd (srs_data_buffer s)"
  let ?f = "data_frame (?n mod srs_max_seq_num s) ?d"
  let ?e = "\<lparr>we_frame = ?f, we_timestamp = clk w (clk_pos w), we_data = ?d\<rparr>"
  let ?w2 = "w\<lparr>clk_pos := Suc (Suc (clk_pos w))\<rparr>"
  let ?s3 = "s\<lparr>srs_data_buffer := tl (srs_data_buffer s),
                srs_window := AList.update ?n ?e (srs_window s),
                srs_individual_timers :=
                  AList.update ?n (clk w (Suc (clk_pos w))) (srs_individual_timers s),
                srs_total_transmissions := srs_total_transmissions s + 1\<rparr>"
  let ?res = "sr_receive_frame ?f r ?w2"
  from assms st have si: "snd_win_inv ?n s" and ri: "rcv_buf_inv r"
    and can: "?n < srs_base s + srs_window_size s"
    by (simp_all add: sr_window_inv_def sr_can_send_def)
  from si have m: "srs_max_seq_num s = 8" by (simp add: snd_win_inv_def)
  have sq: "seq_num ?f = ?n mod 8" by (simp add: data_frame_def m)
  have "snd_win_inv (?n + 1) (s\<lparr>srs_window := AList.update ?n ?e (srs_window s)\<rparr>)"
    using si can by (rule admit_win_inv) (simp add: sq)
  moreover have "snd_win_inv (?n + 1) ?s3 =
      snd_win_inv (?n + 1) (s\<lparr>srs_window := AList.update ?n ?e (srs_window s)\<rparr>)"
    by (rule snd_win_inv_cong) simp_all
  ultimately have s3: "snd_win_inv (?n + 1) ?s3" by simp
  have k3: "map_of (srs_window ?s3) ?n = Some ?e" by (simp add: AList.update_conv')
  have acks: "fst ?res = None \<or> fst ?res = Some [] \<or> fst ?res = Some [?n mod 8]"
    using receive_frame_acks [of ?f r ?w2] sq by simp
  have a: "snd_win_inv (?n + 1) (sr_process_acks (fst ?res) ?s3)"
    using s3 k3 acks by (rule process_acks_win_inv)
  have b: "rcv_buf_inv (fst (snd ?res))"
    using ri sq by (intro receive_frame_buf_inv) simp_all
  show ?thesis
    using a b by (simp add: st sr_send_one_unfold Let_def sr_window_inv_def)
qed

lemma slide_step_window_inv:
  assumes inv: "sr_window_inv (s, r, w)"
    and ack: "srs_base s mod srs_max_seq_num s |\<in>| srs_ack_received s"
  shows "sr_window_inv
           (s\<lparr>srs_ack_received := srs_ack_received s |-| {|srs_base s mod srs_max_seq_num s|},
              srs_base := srs_base s + 1\<rparr>, r, w)"
proof -
  let ?n = "srs_next_seq_num s"
  let ?s' = "s\<lparr>srs_ack_received := srs_ack_received s |-| {|srs_base s mod srs_max_seq_num s|},
              srs_base := srs_base s + 1\<rparr>"
  from inv have si: "snd_win_inv ?n s" and ri: "rcv_buf_inv r"
    by (simp_all add: sr_window_inv_def)
  from si have m: "srs_max_seq_num s = 8" by (simp add: snd_win_inv_def)
  have z: "(srs_base s mod 8 - srs_base s) mod 8 = 0" by (simp add: mod_diff_left_eq)
  from ack m have "srs_base s mod 8 |\<in>| srs_ack_received s" by simp
  from snd_win_inv_ack [OF si this] z
  have b: "srs_base s < ?n" "map_of (srs_window s) (srs_base s) = None"
    by simp_all
  have "snd_win_inv ?n ?s'"
  proof (rule snd_win_invI)
    fix k e
    assume "map_of (srs_window ?s') k = Some e"
    then have k: "map_of (srs_window s) k = Some e" by simp
    with b(2) have "k \<noteq> srs_base s" by auto
    with snd_win_inv_key [OF si k]
    show "srs_base ?s' \<le> k \<and> k < ?n \<and> seq_num (we_frame e) = k mod 8"
      by simp
  next
    fix a
    assume "a |\<in>| srs_ack_received ?s'"
    then have a: "a |\<in>| srs_ack_received s" "a \<noteq> srs_base s mod 8" using m by auto
    with snd_win_inv_ack [OF si]
    have old: "0 \<le> a" "a < 8" "srs_base s + (a - srs_base s) mod 8 < ?n"
      "map_of (srs_window s) (srs_base s + (a - srs_base s) mod 8) = None"
      by simp_all
    have nz: "(a - srs_base s) mod 8 \<noteq> 0"
    proof
      assume "(a - srs_base s) mod 8 = 0"
      then have "8 dvd a - srs_base s" by (simp only: dvd_eq_mod_eq_0)
      then have "a mod 8 = srs_base s mod 8" by (simp only: mod_eq_dvd_iff)
      with old(1,2) a(2) show False by simp
    qed
    have "(a - (srs_base s + 1)) mod 8 = (a - srs_base s - 1) mod 8" by (simp add: algebra_simps)
    also have "\<dots> = (a - srs_base s) mod 8 - 1" using nz by (rule mod8_pred)
    finally have p: "srs_base s + 1 + (a - (srs_base s + 1)) mod 8
        = srs_base s + (a - srs_base s) mod 8" by simp
    have b': "srs_base ?s' = srs_base s + 1" "srs_window ?s' = srs_window s" by simp_all
    from old show "0 \<le> a \<and> a < 8 \<and> srs_base ?s' + (a - srs_base ?s') mod 8 < ?n \<and>
        map_of (srs_window ?s') (srs_base ?s' + (a - srs_base ?s') mod 8) = None"
      unfolding b' p by simp
  qed (use si b in \<open>simp_all add: snd_win_inv_def\<close>)
  with ri show ?thesis by (simp add: sr_window_inv_def)
qed

lemma reach_window_inv:
  assumes "sr_reach st0 st" "sr_window_inv st0"
  shows "sr_window_inv st"
  using assms
proof (induction rule: sr_reach.induct)
  case start
  then show ?case .
next
  case (send st)
  then show ?case by (simp add: send_one_window_inv)
next
  case (retransmit st k)
  then show ?case by (simp add: retransmit_window_inv)
next
  case (clock s r w)
  then show ?case by (simp add: sr_window_inv_def)
next
  case (slide s r w)
  then show ?case by (simp add: slide_step_window_inv)
qed

lemma init_window_inv:
  assumes "0 \<le> ws"
  shows "sr_window_inv
           (sr_add_data ds (SelectiveRepeatSender_init ws t), SelectiveRepeatReceiver_init wr, w)"
  using assms
  by (simp add: sr_window_inv_def snd_win_inv_def rcv_buf_inv_def sr_add_data_def
      SelectiveRepeatSender_init_def SelectiveRepeatReceiver_init_def)

text \<open>
  C4, as the code has it. At every observable point of a Selective Repeat run whose
  sender was constructed with a window size that is not negative, \<open>0 \<le> next_seq_num - base \<le> window_size\<close>,
  every key of the sender's window lies in \<open>[base, next_seq_num)\<close>, and every modular
  number in the receiver's buffer passes the receiver's window test
  \<^verbatim>\<open>is_in_window\<close>, that is, lies in the modular window from
  \<open>base mod 8\<close> to \<open>(base + window_size - 1) mod 8\<close>.
\<close>

theorem sr_window_invariant:
  assumes "0 \<le> ws"
    and "sr_reach (sr_add_data ds (SelectiveRepeatSender_init ws t),
                   SelectiveRepeatReceiver_init wr, w0) (s, r, w)"
  shows "0 \<le> srs_next_seq_num s - srs_base s \<and>
         srs_next_seq_num s - srs_base s \<le> srs_window_size s \<and>
         (\<forall>k \<in> fst ` set (srs_window s). srs_base s \<le> k \<and> k < srs_next_seq_num s) \<and>
         (\<forall>q \<in> fst ` set (srr_buffer r). is_in_window r q)"
proof -
  have inv: "sr_window_inv (s, r, w)"
    using assms(2) init_window_inv [OF assms(1)] by (rule reach_window_inv)
  then have si: "snd_win_inv (srs_next_seq_num s) s" and ri: "rcv_buf_inv r"
    by (simp_all add: sr_window_inv_def)
  have keys: "srs_base s \<le> k \<and> k < srs_next_seq_num s" if "k \<in> fst ` set (srs_window s)" for k
  proof -
    from that obtain e where "map_of (srs_window s) k = Some e"
      by (metis map_of_eq_None_iff not_None_eq)
    with si show ?thesis by (auto simp: snd_win_inv_def)
  qed
  have buf: "is_in_window r q" if "q \<in> fst ` set (srr_buffer r)" for q
  proof -
    from that obtain d where "map_of (srr_buffer r) q = Some d"
      by (metis map_of_eq_None_iff not_None_eq)
    with ri show ?thesis by (auto simp: rcv_buf_inv_def)
  qed
  from si have "srs_base s \<le> srs_next_seq_num s"
    "srs_next_seq_num s \<le> srs_base s + srs_window_size s"
    by (simp_all add: snd_win_inv_def)
  with keys buf show ?thesis by auto
qed

text \<open>C4, witness: the state after the first four frames were sent, two of them lost
  and two buffered by the receiver.\<close>

theorem sr_window_invariant_witness:
  "0 \<le> srs_next_seq_num (fst sr_two_lost) - srs_base (fst sr_two_lost) \<and>
   srs_next_seq_num (fst sr_two_lost) - srs_base (fst sr_two_lost)
     \<le> srs_window_size (fst sr_two_lost) \<and>
   map fst (srs_window (fst sr_two_lost)) = [0, 1] \<and>
   list_all (\<lambda>k. srs_base (fst sr_two_lost) \<le> k \<and> k < srs_next_seq_num (fst sr_two_lost))
     (map fst (srs_window (fst sr_two_lost))) \<and>
   map fst (srr_buffer (fst (snd sr_two_lost))) = [2, 3] \<and>
   list_all (is_in_window (fst (snd sr_two_lost))) (map fst (srr_buffer (fst (snd sr_two_lost))))"
proof -
  obtain s r w where st: "sr_two_lost = (s, r, w)" by (cases sr_two_lost) auto
  have reach: "sr_reach (sr_add_data payloads8 (SelectiveRepeatSender_init 4 (3 / 2)),
      SelectiveRepeatReceiver_init 4, two_lost_world) (s, r, w)"
    unfolding st [symmetric] sr_two_lost_def by (rule reach_send_new [OF sr_reach.start])
  have keys: "map fst (srs_window (fst sr_two_lost)) = [0, 1]"
    "map fst (srr_buffer (fst (snd sr_two_lost))) = [2, 3]"
    by code_simp+
  from sr_window_invariant [OF _ reach]
  have "0 \<le> srs_next_seq_num s - srs_base s \<and>
      srs_next_seq_num s - srs_base s \<le> srs_window_size s \<and>
      list_all (\<lambda>k. srs_base s \<le> k \<and> k < srs_next_seq_num s) (map fst (srs_window s)) \<and>
      list_all (is_in_window r) (map fst (srr_buffer r))"
    by (simp add: list_all_iff)
  with keys show ?thesis by (simp add: st)
qed

text \<open>
  C4 as the claim states it, for every run, does not hold: the constructor takes any
  window size. A sender constructed with the window size -1 starts its run with
  \<open>next_seq_num - base = 0\<close>, which is more than its window size.
\<close>

theorem negative_window_breaks_invariant:
  "sr_reach sr_negative_start sr_negative_start \<and>
   srs_next_seq_num (fst sr_negative_start) - srs_base (fst sr_negative_start) = 0 \<and>
   srs_window_size (fst sr_negative_start) = - 1 \<and>
   \<not> srs_next_seq_num (fst sr_negative_start) - srs_base (fst sr_negative_start)
       \<le> srs_window_size (fst sr_negative_start)"
  by (simp add: sr_reach.start sr_negative_start_def sr_add_data_def
        SelectiveRepeatSender_init_def)

section \<open>Selective Repeat: retransmission is selective\<close>

lemma deliver_frames_total [simp]:
  "srr_total_frames_received (deliver_frames r) = srr_total_frames_received r"
proof (induction r rule: deliver_frames.induct)
  case (1 r)
  show ?case
  proof (cases "map_of (srr_buffer r) (srr_base r mod srr_max_seq_num r)")
    case None
    then show ?thesis by (simp add: deliver_frames.simps [of r])
  next
    case (Some d)
    with "1.IH" [OF Some] show ?thesis by (simp add: deliver_frames.simps [of r])
  qed
qed

lemma receive_frame_total:
  "srr_total_frames_received (fst (snd (sr_receive_frame f r w)))
     = srr_total_frames_received r + 1"
  by (cases rule: sr_receive_frame_cases [of f r w]) simp_all

lemma sr_process_ack_config [simp]:
  "srs_window_size (sr_process_ack a s) = srs_window_size s"
  "srs_max_seq_num (sr_process_ack a s) = srs_max_seq_num s"
  "srs_timeout (sr_process_ack a s) = srs_timeout s"
  "srs_base (sr_process_ack a s) = srs_base s"
  "srs_total_transmissions (sr_process_ack a s) = srs_total_transmissions s"
  "srs_retransmissions (sr_process_ack a s) = srs_retransmissions s"
  by (simp_all add: sr_process_ack_def Let_def)

lemma sr_process_acks_config [simp]:
  "srs_window_size (sr_process_acks a s) = srs_window_size s"
  "srs_max_seq_num (sr_process_acks a s) = srs_max_seq_num s"
  "srs_timeout (sr_process_acks a s) = srs_timeout s"
  "srs_base (sr_process_acks a s) = srs_base s"
  "srs_total_transmissions (sr_process_acks a s) = srs_total_transmissions s"
  "srs_retransmissions (sr_process_acks a s) = srs_retransmissions s"
proof -
  have "srs_window_size (fold sr_process_ack ns s) = srs_window_size s \<and>
        srs_max_seq_num (fold sr_process_ack ns s) = srs_max_seq_num s \<and>
        srs_timeout (fold sr_process_ack ns s) = srs_timeout s \<and>
        srs_base (fold sr_process_ack ns s) = srs_base s \<and>
        srs_total_transmissions (fold sr_process_ack ns s) = srs_total_transmissions s \<and>
        srs_retransmissions (fold sr_process_ack ns s) = srs_retransmissions s" for ns
    by (induction ns arbitrary: s) simp_all
  then show
    "srs_window_size (sr_process_acks a s) = srs_window_size s"
    "srs_max_seq_num (sr_process_acks a s) = srs_max_seq_num s"
    "srs_timeout (sr_process_acks a s) = srs_timeout s"
    "srs_base (sr_process_acks a s) = srs_base s"
    "srs_total_transmissions (sr_process_acks a s) = srs_total_transmissions s"
    "srs_retransmissions (sr_process_acks a s) = srs_retransmissions s"
    by (simp_all add: sr_process_acks_def split: option.splits)
qed

lemma deliver_frames_config [simp]:
  "srr_window_size (deliver_frames r) = srr_window_size r"
  "srr_max_seq_num (deliver_frames r) = srr_max_seq_num r"
proof -
  have "srr_window_size (deliver_frames r) = srr_window_size r \<and>
        srr_max_seq_num (deliver_frames r) = srr_max_seq_num r"
  proof (induction r rule: deliver_frames.induct)
    case (1 r)
    show ?case
    proof (cases "map_of (srr_buffer r) (srr_base r mod srr_max_seq_num r)")
      case None
      then show ?thesis by (simp add: deliver_frames.simps [of r])
    next
      case (Some d)
      with "1.IH" [OF Some] show ?thesis by (simp add: deliver_frames.simps [of r])
    qed
  qed
  then show "srr_window_size (deliver_frames r) = srr_window_size r"
    "srr_max_seq_num (deliver_frames r) = srr_max_seq_num r" by simp_all
qed

lemma receive_frame_config [simp]:
  "srr_window_size (fst (snd (sr_receive_frame f r w))) = srr_window_size r"
  "srr_max_seq_num (fst (snd (sr_receive_frame f r w))) = srr_max_seq_num r"
  by (cases rule: sr_receive_frame_cases [of f r w]; simp)+

lemma send_one_config:
  "srs_window_size (fst (sr_send_one st)) = srs_window_size (fst st)"
  "srs_max_seq_num (fst (sr_send_one st)) = srs_max_seq_num (fst st)"
  "srr_window_size (fst (snd (sr_send_one st))) = srr_window_size (fst (snd st))"
  "srr_max_seq_num (fst (snd (sr_send_one st))) = srr_max_seq_num (fst (snd st))"
proof -
  obtain s r w where st: "st = (s, r, w)" by (cases st) auto
  show "srs_window_size (fst (sr_send_one st)) = srs_window_size (fst st)"
    "srs_max_seq_num (fst (sr_send_one st)) = srs_max_seq_num (fst st)"
    "srr_window_size (fst (snd (sr_send_one st))) = srr_window_size (fst (snd st))"
    "srr_max_seq_num (fst (snd (sr_send_one st))) = srr_max_seq_num (fst (snd st))"
    by (simp_all add: st sr_send_one_unfold Let_def)
qed

lemma retransmit_config:
  "srs_window_size (fst (selective_retransmit k st)) = srs_window_size (fst st) \<and>
   srs_max_seq_num (fst (selective_retransmit k st)) = srs_max_seq_num (fst st) \<and>
   srr_window_size (fst (snd (selective_retransmit k st))) = srr_window_size (fst (snd st)) \<and>
   srr_max_seq_num (fst (snd (selective_retransmit k st))) = srr_max_seq_num (fst (snd st))"
proof -
  obtain s r w where st: "st = (s, r, w)" by (cases st) auto
  show ?thesis
  proof (cases "map_of (srs_window s) k")
    case None
    then show ?thesis by (simp add: st selective_retransmit_def)
  next
    case (Some e)
    then show ?thesis by (simp add: st selective_retransmit_unfold [OF Some] Let_def)
  qed
qed

lemma reach_config:
  assumes "sr_reach st0 st"
  shows "srs_window_size (fst st) = srs_window_size (fst st0) \<and>
         srs_max_seq_num (fst st) = srs_max_seq_num (fst st0) \<and>
         srr_window_size (fst (snd st)) = srr_window_size (fst (snd st0)) \<and>
         srr_max_seq_num (fst (snd st)) = srr_max_seq_num (fst (snd st0))"
  using assms
proof (induction rule: sr_reach.induct)
  case start
  show ?case by simp
next
  case (send st)
  then show ?case by (simp add: send_one_config)
next
  case (retransmit st k)
  then show ?case by (simp add: retransmit_config)
next
  case (clock s r w)
  then show ?case by simp
next
  case (slide s r w)
  then show ?case by simp
qed

lemma process_acks_effect:
  assumes "a = None \<or> a = Some [] \<or> a = Some [x]"
  shows "map_of (srs_window (sr_process_acks a s)) m =
          (if a = Some [x] \<and> m mod srs_max_seq_num s = x \<and> m \<in> fst ` set (srs_window s)
           then None else map_of (srs_window s) m)"
    and "map_of (srs_individual_timers (sr_process_acks a s)) m =
          (if a = Some [x] \<and> m mod srs_max_seq_num s = x \<and> m \<in> fst ` set (srs_window s)
           then None else map_of (srs_individual_timers s) m)"
  using assms
  by (auto simp: sr_process_acks_def sr_process_ack_def Let_def map_of_fold_delete)

text \<open>
  With a negative window size the sender never admits a frame: its window stays empty.
\<close>

lemma negative_window_idle:
  assumes "sr_reach st0 st"
    and "srs_window (fst st0) = []" "srs_ack_received (fst st0) = {||}"
      "srs_next_seq_num (fst st0) = srs_base (fst st0)" "srs_window_size (fst st0) < 0"
  shows "srs_window (fst st) = [] \<and> srs_ack_received (fst st) = {||} \<and>
         srs_next_seq_num (fst st) = srs_base (fst st) \<and> srs_window_size (fst st) < 0"
  using assms
proof (induction rule: sr_reach.induct)
  case start
  then show ?case by simp
next
  case (send st)
  from send.IH [OF send.prems] send.hyps(2) show ?case by (simp add: sr_can_send_def)
next
  case (retransmit st k)
  obtain s r w where st: "st = (s, r, w)" by (cases st) auto
  from retransmit.IH [OF retransmit.prems] have idle: "srs_window (fst st) = [] \<and>
      srs_ack_received (fst st) = {||} \<and> srs_next_seq_num (fst st) = srs_base (fst st) \<and>
      srs_window_size (fst st) < 0" .
  then have "selective_retransmit k st = st" by (simp add: st selective_retransmit_def)
  with idle show ?case by simp
next
  case (clock s r w)
  from clock.IH [OF clock.prems] show ?case by simp
next
  case (slide s r w)
  from slide.IH [OF slide.prems] slide.hyps(2) show ?case by simp
qed

text \<open>
  C3, as the code has it. In a Selective Repeat run whose sender was constructed with a
  window size of at most 8, the size of the sequence space, retransmitting an
  outstanding frame n leaves every other frame m alone: the window entry of m (its frame
  and timestamp) and the timer of m are as before. The call makes exactly one
  transmission, and what the receiver gets in it is the frame of n, once.
\<close>

theorem selective_retransmit_touches_one_frame:
  assumes ws: "ws \<le> 8"
    and reach: "sr_reach (sr_add_data ds (SelectiveRepeatSender_init ws t),
                   SelectiveRepeatReceiver_init wr, w0) (s, r, w)"
    and n: "map_of (srs_window s) n = Some e"
    and mn: "m \<noteq> n"
    and res: "selective_retransmit n (s, r, w) = (s', r', w')"
  shows "map_of (srs_window s') m = map_of (srs_window s) m \<and>
         map_of (srs_individual_timers s') m = map_of (srs_individual_timers s) m \<and>
         srs_total_transmissions s' = srs_total_transmissions s + 1 \<and>
         srs_retransmissions s' = srs_retransmissions s + 1 \<and>
         srr_total_frames_received r' = srr_total_frames_received r + 1 \<and>
         (r', w') = snd (sr_receive_frame (we_frame e) r (w\<lparr>clk_pos := Suc (Suc (clk_pos w))\<rparr>))"
proof -
  let ?w2 = "w\<lparr>clk_pos := Suc (Suc (clk_pos w))\<rparr>"
  let ?s3 = "s\<lparr>srs_total_transmissions := srs_total_transmissions s + 1,
              srs_retransmissions := srs_retransmissions s + 1,
              srs_window :=
                AList.update n (e\<lparr>we_timestamp := clk w (clk_pos w)\<rparr>) (srs_window s),
              srs_individual_timers :=
                AList.update n (clk w (Suc (clk_pos w))) (srs_individual_timers s)\<rparr>"
  let ?res = "sr_receive_frame (we_frame e) r ?w2"
  have ws0: "0 \<le> ws"
  proof (rule ccontr)
    assume "\<not> 0 \<le> ws"
    then have "srs_window_size
        (fst (sr_add_data ds (SelectiveRepeatSender_init ws t), SelectiveRepeatReceiver_init wr, w0))
          < 0"
      by (simp add: sr_add_data_def SelectiveRepeatSender_init_def)
    with negative_window_idle [OF reach] have "srs_window s = []"
      by (simp add: sr_add_data_def SelectiveRepeatSender_init_def)
    with n show False by simp
  qed
  have "sr_window_inv (s, r, w)"
    using reach init_window_inv [OF ws0] by (rule reach_window_inv)
  then have si: "snd_win_inv (srs_next_seq_num s) s" by (simp add: sr_window_inv_def)
  from reach_config [OF reach] have ws_s: "srs_window_size s = ws"
    by (simp add: sr_add_data_def SelectiveRepeatSender_init_def)
  from si have m8: "srs_max_seq_num s = 8" and span: "srs_next_seq_num s \<le> srs_base s + ws"
    by (simp_all add: snd_win_inv_def ws_s)
  from snd_win_inv_key [OF si n] have nk: "srs_base s \<le> n" "n < srs_next_seq_num s"
    "seq_num (we_frame e) = n mod 8" by simp_all
  have acks: "fst ?res = None \<or> fst ?res = Some [] \<or> fst ?res = Some [n mod 8]"
    using receive_frame_acks [of "we_frame e" r ?w2] nk(3) by simp
  have not_rm: "\<not> (m mod 8 = n mod 8 \<and> m \<in> fst ` set (srs_window ?s3))"
  proof
    assume a: "m mod 8 = n mod 8 \<and> m \<in> fst ` set (srs_window ?s3)"
    then have "m \<in> fst ` set (srs_window s)" using mn by (auto simp: AList.dom_update)
    then obtain e' where "map_of (srs_window s) m = Some e'"
      by (metis map_of_eq_None_iff not_None_eq)
    from snd_win_inv_key [OF si this] have "srs_base s \<le> m" "m < srs_next_seq_num s" by simp_all
    with nk span ws have d: "\<bar>m - n\<bar> < 8" by linarith
    from a have "m mod 8 = n mod 8" ..
    then have "m = n" using d by (rule same_residue_close)
    with mn show False by simp
  qed
  have eq: "s' = sr_process_acks (fst ?res) ?s3" "r' = fst (snd ?res)" "w' = snd (snd ?res)"
    using res by (simp_all add: selective_retransmit_unfold [OF n] Let_def)
  have sel: "srs_max_seq_num ?s3 = 8" by (simp add: m8)
  have cond: "\<not> (fst ?res = Some [n mod 8] \<and> m mod srs_max_seq_num ?s3 = n mod 8 \<and>
      m \<in> fst ` set (srs_window ?s3))"
    unfolding sel using not_rm by blast
  have w1: "map_of (srs_window s') m = map_of (srs_window ?s3) m"
    unfolding eq process_acks_effect(1) [OF acks, of ?s3 m] using cond by (rule if_not_P)
  have t1: "map_of (srs_individual_timers s') m = map_of (srs_individual_timers ?s3) m"
    unfolding eq process_acks_effect(2) [OF acks, of ?s3 m] using cond by (rule if_not_P)
  have w2: "map_of (srs_window ?s3) m = map_of (srs_window s) m"
    using mn by (simp add: AList.update_conv')
  have t2: "map_of (srs_individual_timers ?s3) m = map_of (srs_individual_timers s) m"
    using mn by (simp add: AList.update_conv')
  have c: "srs_total_transmissions s' = srs_total_transmissions s + 1"
    "srs_retransmissions s' = srs_retransmissions s + 1"
    unfolding eq by simp_all
  have r: "srr_total_frames_received r' = srr_total_frames_received r + 1"
    unfolding eq by (rule receive_frame_total)
  have f: "(r', w') = snd ?res" unfolding eq by simp
  from w1 w2 t1 t2 c r f show ?thesis by simp
qed

text \<open>C3, witness: frames 0 and 1 are outstanding, frame 0 is retransmitted, the entry and
  the timer of frame 1 stay, and the receiver gets frame 0.\<close>

theorem selective_retransmit_touches_one_frame_witness:
  "map_of (srs_window (fst sr_two_lost)) 1 \<noteq> None \<and>
   map_of (srs_window (fst (selective_retransmit 0 sr_two_lost))) 1
     = map_of (srs_window (fst sr_two_lost)) 1 \<and>
   map_of (srs_individual_timers (fst (selective_retransmit 0 sr_two_lost))) 1
     = map_of (srs_individual_timers (fst sr_two_lost)) 1 \<and>
   srs_total_transmissions (fst (selective_retransmit 0 sr_two_lost))
     = srs_total_transmissions (fst sr_two_lost) + 1 \<and>
   srr_total_frames_received (fst (snd (selective_retransmit 0 sr_two_lost)))
     = srr_total_frames_received (fst (snd sr_two_lost)) + 1 \<and>
   snd (selective_retransmit 0 sr_two_lost)
     = snd (sr_receive_frame (data_frame 0 ''A'') (fst (snd sr_two_lost))
              ((snd (snd sr_two_lost))\<lparr>clk_pos := Suc (Suc (clk_pos (snd (snd sr_two_lost))))\<rparr>))"
proof -
  obtain s r w where st: "sr_two_lost = (s, r, w)" by (cases sr_two_lost) auto
  obtain s' r' w' where res: "selective_retransmit 0 (s, r, w) = (s', r', w')"
    by (cases "selective_retransmit 0 (s, r, w)") auto
  have reach: "sr_reach (sr_add_data payloads8 (SelectiveRepeatSender_init 4 (3 / 2)),
      SelectiveRepeatReceiver_init 4, two_lost_world) (s, r, w)"
    unfolding st [symmetric] sr_two_lost_def by (rule reach_send_new [OF sr_reach.start])
  have "map_of (srs_window (fst sr_two_lost)) 0
      = Some \<lparr>we_frame = data_frame 0 ''A'', we_timestamp = 0, we_data = ''A''\<rparr>"
    by code_simp
  then have n: "map_of (srs_window s) 0
      = Some \<lparr>we_frame = data_frame 0 ''A'', we_timestamp = 0, we_data = ''A''\<rparr>"
    by (simp add: st)
  have one: "map_of (srs_window (fst sr_two_lost)) 1 \<noteq> None" by code_simp
  from selective_retransmit_touches_one_frame [OF _ reach n _ res, of 1] one
  show ?thesis by (simp add: st res receive_frame_total)
qed

text \<open>
  C3 as the claim states it, for every outstanding frame of every sender, does not hold:
  the constructor takes any window size. With a window of 9 the instances 0 to 8 can be
  outstanding together; the retransmission of instance 8 (modular number 0) is
  acknowledged with the number 0, and \<^verbatim>\<open>process_ack\<close> removes the window entry and the
  timer of instance 0 as well.
\<close>

theorem large_window_retransmit_removes_other_frame:
  "map fst (srs_window (fst sr_window9)) = [0, 1, 2, 3, 4, 5, 6, 7, 8] \<and>
   map fst (srs_individual_timers (fst sr_window9)) = [0, 1, 2, 3, 4, 5, 6, 7, 8] \<and>
   map fst (srs_window (fst (selective_retransmit 8 sr_window9))) = [1, 2, 3, 4, 5, 6, 7] \<and>
   map fst (srs_individual_timers (fst (selective_retransmit 8 sr_window9)))
     = [1, 2, 3, 4, 5, 6, 7] \<and>
   map_of (srs_window (fst (selective_retransmit 8 sr_window9))) 0 = None \<and>
   map_of (srs_individual_timers (fst (selective_retransmit 8 sr_window9))) 0 = None"
  by code_simp

section \<open>In-order delivery: Stop-and-Wait\<close>

lemma sw_receive_frame_sync:
  assumes "seq_num f = swr_expected_seq_num r"
  shows "(\<not> fst (sw_receive_frame f r w) \<and> fst (snd (sw_receive_frame f r w)) = r) \<or>
         (fst (sw_receive_frame f r w) \<and>
          fst (snd (sw_receive_frame f r w)) =
            r\<lparr>swr_received_frames := swr_received_frames r @ [data f],
              swr_expected_seq_num := 1 - swr_expected_seq_num r\<rparr>)"
  using assms
  by (simp add: sw_receive_frame_def Let_def random_random_def is_corrupted_def send_ack_def)

lemma sw_send_loop_sync:
  assumes "seq_num f = swr_expected_seq_num r" "sws_seq_num s = swr_expected_seq_num r"
  shows "sws_seq_num (fst (snd (sw_send_loop f s r w)))
           = swr_expected_seq_num (fst (snd (snd (sw_send_loop f s r w)))) \<and>
         (swr_received_frames (fst (snd (snd (sw_send_loop f s r w)))) = swr_received_frames r \<or>
          swr_received_frames (fst (snd (snd (sw_send_loop f s r w))))
            = swr_received_frames r @ [data f])"
  using assms
proof (induction f s r w rule: sw_send_loop.induct)
  case (1 f s r w)
  show ?case
  proof (cases "sws_waiting_for_ack s \<and> sws_retransmission_count s < 5")
    case False
    have "sw_send_loop f s r w = (Inr False, s, r, w)"
      by (subst sw_send_loop.simps) (rule if_not_P [OF False])
    with "1.prems" show ?thesis by simp
  next
    case True
    let ?res = "sw_receive_frame f r w"
    let ?s1 = "s\<lparr>sws_total_transmissions := sws_total_transmissions s + 1\<rparr>"
    let ?s2 = "?s1\<lparr>sws_retransmission_count := sws_retransmission_count ?s1 + 1\<rparr>"
    from sw_receive_frame_sync [OF "1.prems"(1), of w]
    show ?thesis
    proof
      assume a: "\<not> fst ?res \<and> fst (snd ?res) = r"
      show ?thesis
      proof (cases "sws_timeout ?s2 < 0")
        case neg: True
        have eq: "sw_send_loop f s r w =
            (Inl (ValueError ''sleep length must be non-negative''), ?s2,
             fst (snd ?res), snd (snd ?res))"
          using True a neg by (simp add: sw_send_loop.simps [of f s r w] Let_def)
        show ?thesis unfolding eq using a "1.prems" by simp
      next
        case nonneg: False
        have eq: "sw_send_loop f s r w =
            sw_send_loop f ?s2 (fst (snd ?res)) (snd (snd ?res))"
          using True a nonneg by (simp add: sw_send_loop.simps [of f s r w] Let_def)
        have "sws_seq_num (fst (snd (sw_send_loop f ?s2 (fst (snd ?res)) (snd (snd ?res)))))
             = swr_expected_seq_num
                 (fst (snd (snd (sw_send_loop f ?s2 (fst (snd ?res)) (snd (snd ?res)))))) \<and>
           (swr_received_frames
              (fst (snd (snd (sw_send_loop f ?s2 (fst (snd ?res)) (snd (snd ?res))))))
              = swr_received_frames (fst (snd ?res)) \<or>
            swr_received_frames
              (fst (snd (snd (sw_send_loop f ?s2 (fst (snd ?res)) (snd (snd ?res))))))
              = swr_received_frames (fst (snd ?res)) @ [data f])"
          using True a nonneg "1.prems"
          by (intro "1.IH" [of ?s1 ?res ?s2]) simp_all
        with a show ?thesis unfolding eq by simp
      qed
    next
      assume a: "fst ?res \<and> fst (snd ?res) =
            r\<lparr>swr_received_frames := swr_received_frames r @ [data f],
              swr_expected_seq_num := 1 - swr_expected_seq_num r\<rparr>"
      then have eq: "sw_send_loop f s r w =
          (Inr True, ?s1\<lparr>sws_waiting_for_ack := False, sws_seq_num := 1 - sws_seq_num ?s1\<rparr>,
           fst (snd ?res), snd (snd ?res))"
        using True by (simp add: sw_send_loop.simps [of f s r w] Let_def)
      show ?thesis unfolding eq using a "1.prems" by simp
    qed
  qed
qed

lemma sw_send_frame_sync:
  assumes "sws_seq_num s = swr_expected_seq_num r"
  shows "sws_seq_num (fst (snd (sw_send_frame d s r w)))
           = swr_expected_seq_num (fst (snd (snd (sw_send_frame d s r w)))) \<and>
         (swr_received_frames (fst (snd (snd (sw_send_frame d s r w)))) = swr_received_frames r \<or>
          swr_received_frames (fst (snd (snd (sw_send_frame d s r w))))
            = swr_received_frames r @ [d])"
proof -
  let ?f = "data_frame (sws_seq_num s) d"
  let ?s1 = "s\<lparr>sws_current_frame := Some ?f, sws_waiting_for_ack := True,
                 sws_retransmission_count := 0\<rparr>"
  have "seq_num ?f = swr_expected_seq_num r" "sws_seq_num ?s1 = swr_expected_seq_num r"
    "data ?f = d"
    using assms by (simp_all add: data_frame_def)
  with sw_send_loop_sync [of ?f r ?s1 w] show ?thesis
    by (simp add: sw_send_frame_def Let_def)
qed

lemma sw_send_all_subseq:
  assumes "sws_seq_num s = swr_expected_seq_num r"
  shows "\<exists>ys. swr_received_frames (fst (snd (snd (sw_send_all ds s r w))))
                 = swr_received_frames r @ ys \<and> subseq ys ds"
  using assms
proof (induction ds arbitrary: s r w)
  case Nil
  then show ?case by simp
next
  case (Cons d ds)
  let ?res = "sw_send_frame d s r w"
  from sw_send_frame_sync [OF Cons.prems, of d w]
  have sync: "sws_seq_num (fst (snd ?res)) = swr_expected_seq_num (fst (snd (snd ?res)))"
    and step: "swr_received_frames (fst (snd (snd ?res))) = swr_received_frames r \<or>
          swr_received_frames (fst (snd (snd ?res))) = swr_received_frames r @ [d]"
    by simp_all
  show ?case
  proof (cases "fst ?res")
    case (Inl e)
    then have eq: "sw_send_all (d # ds) s r w = (Some e, snd ?res)"
      by (simp add: Let_def)
    from step show ?thesis
    proof
      assume "swr_received_frames (fst (snd (snd ?res))) = swr_received_frames r"
      then have "swr_received_frames (fst (snd (snd (sw_send_all (d # ds) s r w))))
          = swr_received_frames r @ []"
        unfolding eq by simp
      moreover have "subseq [] (d # ds)" by simp
      ultimately show ?thesis by blast
    next
      assume "swr_received_frames (fst (snd (snd ?res))) = swr_received_frames r @ [d]"
      then have "swr_received_frames (fst (snd (snd (sw_send_all (d # ds) s r w))))
          = swr_received_frames r @ [d]"
        unfolding eq by simp
      moreover have "subseq [d] (d # ds)" by simp
      ultimately show ?thesis by blast
    qed
  next
    case (Inr ok)
    from Cons.IH [OF sync, of "snd (snd (snd ?res))"]
    obtain ys where ys:
      "swr_received_frames
         (fst (snd (snd (sw_send_all ds (fst (snd ?res)) (fst (snd (snd ?res)))
            (snd (snd (snd ?res)))))))
         = swr_received_frames (fst (snd (snd ?res))) @ ys" "subseq ys ds"
      by blast
    have eq: "sw_send_all (d # ds) s r w =
        sw_send_all ds (fst (snd ?res)) (fst (snd (snd ?res))) (snd (snd (snd ?res)))"
      using Inr by (simp add: Let_def)
    from step show ?thesis
    proof
      assume a: "swr_received_frames (fst (snd (snd ?res))) = swr_received_frames r"
      have "swr_received_frames (fst (snd (snd (sw_send_all (d # ds) s r w))))
          = swr_received_frames r @ ys"
        unfolding eq ys(1) a ..
      moreover have "subseq ys (d # ds)" using ys(2) by (rule list_emb_Cons)
      ultimately show ?thesis by blast
    next
      assume a: "swr_received_frames (fst (snd (snd ?res))) = swr_received_frames r @ [d]"
      have "swr_received_frames (fst (snd (snd (sw_send_all (d # ds) s r w))))
          = swr_received_frames r @ (d # ys)"
        unfolding eq ys(1) a by simp
      moreover have "subseq (d # ys) (d # ds)" using ys(2) by simp
      ultimately show ?thesis by blast
    qed
  qed
qed

lemma sw_in_order:
  "subseq (swr_received_frames
             (fst (snd (snd (sw_send_all ds (StopAndWaitSender_init t)
                               StopAndWaitReceiver_init w)))))
     ds"
proof -
  have "sws_seq_num (StopAndWaitSender_init t) = swr_expected_seq_num StopAndWaitReceiver_init"
    by (simp add: StopAndWaitSender_init_def StopAndWaitReceiver_init_def)
  from sw_send_all_subseq [OF this, of ds w] show ?thesis
    by (auto simp: StopAndWaitReceiver_init_def)
qed

section \<open>Go-Back-N delivers in order\<close>

lemma gbn_snd_inv_cong:
  "gbs_max_seq_num s' = gbs_max_seq_num s \<Longrightarrow> gbs_base s' = gbs_base s \<Longrightarrow>
   gbs_window_size s' = gbs_window_size s \<Longrightarrow> gbs_window s' = gbs_window s \<Longrightarrow>
   gbn_snd_inv inp nx s' = gbn_snd_inv inp nx s"
  by (simp add: gbn_snd_inv_def)

lemma gbn_snd_inv_key:
  "gbn_snd_inv inp nx s \<Longrightarrow> map_of (gbs_window s) k = Some e \<Longrightarrow>
     gbs_base s \<le> k \<and> k < nx \<and> we_frame e = data_frame (k mod 8) (inp ! nat k)"
  unfolding gbn_snd_inv_def by blast

lemma gbn_snd_invI:
  assumes "gbs_max_seq_num s = 8" "gbs_window_size s \<le> 7" "0 \<le> gbs_base s" "gbs_base s \<le> nx"
    "nx \<le> int (length inp)" "nx - gbs_base s \<le> max 0 (gbs_window_size s)"
    and "\<And>k e. map_of (gbs_window s) k = Some e \<Longrightarrow>
        gbs_base s \<le> k \<and> k < nx \<and> we_frame e = data_frame (k mod 8) (inp ! nat k)"
  shows "gbn_snd_inv inp nx s"
  using assms unfolding gbn_snd_inv_def by blast

lemma py_max_Max: "xs \<noteq> [] \<Longrightarrow> py_max xs = Max (set xs)"
proof (cases xs)
  case Nil
  assume "xs \<noteq> []"
  with Nil show ?thesis by simp
next
  case (Cons x ys)
  have "Max (set (x # ys)) = fold max ys x" by (rule Max.set_eq_fold)
  with Cons show ?thesis by (simp add: py_max_def)
qed

lemma gbn_process_ack_inv:
  assumes inv: "gbn_snd_inv inp nx s"
  shows "gbn_snd_inv inp nx (gbn_process_ack a s)"
proof -
  let ?rm = "filter (\<lambda>k. gbn_is_in_range k (gbs_base s) a) (map fst (gbs_window s))"
  have win: "map_of (fold AList.delete ?rm (gbs_window s)) k =
      (if gbn_is_in_range k (gbs_base s) a then None else map_of (gbs_window s) k)" for k
    by (auto simp: map_of_fold_delete map_of_eq_None_iff [symmetric])
  show ?thesis
  proof (cases "?rm = []")
    case True
    then have "gbn_process_ack a s = s\<lparr>gbs_window := gbs_window s\<rparr>"
      by (simp add: gbn_process_ack_def Let_def)
    with inv show ?thesis by simp
  next
    case False
    then have eq: "gbn_process_ack a s =
        s\<lparr>gbs_window := fold AList.delete ?rm (gbs_window s), gbs_base := py_max ?rm + 1\<rparr>"
      by (simp add: gbn_process_ack_def Let_def)
    have mx: "py_max ?rm \<in> set ?rm" "\<And>k. k \<in> set ?rm \<Longrightarrow> k \<le> py_max ?rm"
      using False by (simp_all add: py_max_Max del: set_filter)
    from mx(1) have "py_max ?rm \<in> fst ` set (gbs_window s)"
      and inr: "gbn_is_in_range (py_max ?rm) (gbs_base s) a" by auto
    then obtain e where "map_of (gbs_window s) (py_max ?rm) = Some e"
      by (metis map_of_eq_None_iff not_None_eq)
    from gbn_snd_inv_key [OF inv this]
    have mb: "gbs_base s \<le> py_max ?rm" "py_max ?rm < nx" by simp_all
    show ?thesis
      unfolding eq
    proof (rule gbn_snd_invI)
      fix k e
      assume "map_of (gbs_window (s\<lparr>gbs_window := fold AList.delete ?rm (gbs_window s),
          gbs_base := py_max ?rm + 1\<rparr>)) k = Some e"
      then have nr: "\<not> gbn_is_in_range k (gbs_base s) a" and k: "map_of (gbs_window s) k = Some e"
        by (simp_all add: win split: if_splits)
      from gbn_snd_inv_key [OF inv k]
      have kb: "gbs_base s \<le> k" "k < nx" "we_frame e = data_frame (k mod 8) (inp ! nat k)"
        by simp_all
      from nr kb(1) inr mb(1) have "py_max ?rm < k"
        by (auto simp: gbn_is_in_range_def split: if_splits)
      with kb show "gbs_base (s\<lparr>gbs_window := fold AList.delete ?rm (gbs_window s),
          gbs_base := py_max ?rm + 1\<rparr>) \<le> k \<and> k < nx \<and>
          we_frame e = data_frame (k mod 8) (inp ! nat k)"
        by simp
    qed (use inv mb in \<open>simp_all add: gbn_snd_inv_def\<close>)
  qed
qed

lemma gbn_ack_opt_inv:
  "gbn_snd_inv inp nx s \<Longrightarrow> gbn_snd_inv inp nx (gbn_ack_opt a s)"
  by (cases a) (simp_all add: gbn_ack_opt_def gbn_process_ack_inv)


lemma subseq_take_mono: "a \<le> b \<Longrightarrow> subseq (take a xs) (take b xs)"
proof -
  assume "a \<le> b"
  then have "take a xs = take a (take b xs)" by (simp add: min_def)
  then have "prefix (take a xs) (take b xs)" by (metis take_is_prefix)
  then show ?thesis by (rule prefix_imp_subseq)
qed

lemma subseq_snoc_take:
  assumes "subseq ys (take a xs)" "a \<le> m" "m < length xs"
  shows "subseq (ys @ [xs ! m]) (take (Suc m) xs)"
proof -
  have "subseq ys (take m xs)"
    using assms(1) subseq_take_mono [OF assms(2)] by (rule subseq_order.order_trans)
  then have "subseq (ys @ [xs ! m]) (take m xs @ [xs ! m])" by simp
  with assms(3) show ?thesis by (simp add: take_Suc_conv_app_nth)
qed

lemma residue_ahead:
  fixes m l :: int
  assumes "m mod 8 = (l + 1) mod 8" "l - 6 \<le> m"
  shows "l + 1 \<le> m"
proof -
  have "(m - (l + 1)) mod 8 = (m mod 8 - (l + 1) mod 8) mod 8" by (simp add: mod_diff_eq)
  with assms(1) have "(m - (l + 1)) mod 8 = 0" by simp
  then have "8 dvd (m - (l + 1))" by (simp only: dvd_eq_mod_eq_0)
  then obtain c where c: "m - (l + 1) = 8 * c" by (auto simp: dvd_def)
  with assms(2) have "- 7 \<le> 8 * c" by linarith
  then have "0 \<le> c" by linarith
  with c show ?thesis by linarith
qed

lemma gbn_receive_frame_cases [case_names kept accepted]:
  obtains
    (kept) a r' w' where "gbn_receive_frame f r w = (a, r', w')"
      "gbr_expected_seq_num r' = gbr_expected_seq_num r"
      "gbr_received_frames r' = gbr_received_frames r"
      "gbr_max_seq_num r' = gbr_max_seq_num r"
  | (accepted) a w' where "seq_num f = gbr_expected_seq_num r mod gbr_max_seq_num r"
      "gbn_receive_frame f r w =
         (a, r\<lparr>gbr_total_frames_received := gbr_total_frames_received r + 1,
               gbr_received_frames := gbr_received_frames r @ [data f],
               gbr_expected_seq_num := gbr_expected_seq_num r + 1\<rparr>, w')"
proof -
  note defs = gbn_receive_frame_def Let_def random_random_def is_corrupted_def send_ack_def
  show ?thesis
  proof (cases "rnd w (rnd_pos w) < 15 / 100")
    case True
    then show ?thesis
      by (intro kept [where r' = "r\<lparr>gbr_total_frames_received := gbr_total_frames_received r + 1\<rparr>"]) (simp_all add: defs)
  next
    case nl: False
    show ?thesis
    proof (cases "rnd w (Suc (rnd_pos w)) < 1 / 10")
      case True
      with nl show ?thesis
        by (intro kept [where r' = "r\<lparr>gbr_total_frames_received := gbr_total_frames_received r + 1,
                gbr_frames_discarded := gbr_frames_discarded r + 1\<rparr>"]) (simp_all add: defs)
    next
      case nc: False
      show ?thesis
      proof (cases "seq_num f = gbr_expected_seq_num r mod gbr_max_seq_num r")
        case True
        with nl nc show ?thesis by (intro accepted) (simp_all add: defs)
      next
        case ne: False
        show ?thesis
        proof (cases "gbr_expected_seq_num r > 0")
          case True
          with nl nc ne show ?thesis
            by (intro kept [where r' = "r\<lparr>gbr_total_frames_received := gbr_total_frames_received r + 1,
                gbr_frames_discarded := gbr_frames_discarded r + 1\<rparr>"]) (simp_all add: defs)
        next
          case False
          with nl nc ne show ?thesis
            by (intro kept [where r' = "r\<lparr>gbr_total_frames_received := gbr_total_frames_received r + 1,
                gbr_frames_discarded := gbr_frames_discarded r + 1\<rparr>"]) (simp_all add: defs)
        qed
      qed
    qed
  qed
qed

lemma gbn_receive_inv:
  assumes inv: "gbn_rcv_inv inp nx r"
    and m: "0 \<le> m" "m < nx" "nx - 7 \<le> m" "nx \<le> int (length inp)"
    and f: "f = data_frame (m mod 8) (inp ! nat m)"
  shows "gbn_rcv_inv inp nx (fst (snd (gbn_receive_frame f r w)))"
proof (cases rule: gbn_receive_frame_cases [of f r w])
  case (kept a r' w')
  with inv show ?thesis by (simp add: gbn_rcv_inv_def)
next
  case (accepted a w')
  from inv obtain l where l: "- 1 \<le> l" "l < nx" "gbr_expected_seq_num r mod 8 = (l + 1) mod 8"
    "subseq (gbr_received_frames r) (take (nat (l + 1)) inp)" and m8: "gbr_max_seq_num r = 8"
    unfolding gbn_rcv_inv_def by blast
  from accepted(1) f m8 l(3) have "m mod 8 = (l + 1) mod 8" by (simp add: data_frame_def)
  moreover from l(2) m(3) have "l - 6 \<le> m" by linarith
  ultimately have lm: "l + 1 \<le> m" by (rule residue_ahead)
  have "subseq (gbr_received_frames r @ [inp ! nat m]) (take (Suc (nat m)) inp)"
    using l(4)
  proof (rule subseq_snoc_take)
    show "nat (l + 1) \<le> nat m" using lm by simp
    show "nat m < length inp" using m by linarith
  qed
  moreover have "Suc (nat m) = nat (m + 1)" using m(1) by simp
  ultimately have sub: "subseq (gbr_received_frames r @ [inp ! nat m]) (take (nat (m + 1)) inp)"
    by simp
  have e: "(gbr_expected_seq_num r + 1) mod 8 = (m + 1) mod 8"
  proof -
    have "(gbr_expected_seq_num r + 1) mod 8 = (gbr_expected_seq_num r mod 8 + 1) mod 8"
      by (simp add: mod_add_left_eq)
    also have "\<dots> = (m mod 8 + 1) mod 8"
      using accepted(1) f m8 by (simp add: data_frame_def)
    also have "\<dots> = (m + 1) mod 8" by (simp add: mod_add_left_eq)
    finally show ?thesis .
  qed
  have "gbn_rcv_inv inp nx
      (r\<lparr>gbr_total_frames_received := gbr_total_frames_received r + 1,
         gbr_received_frames := gbr_received_frames r @ [data f],
         gbr_expected_seq_num := gbr_expected_seq_num r + 1\<rparr>)"
    unfolding gbn_rcv_inv_def
  proof (intro conjI exI [of _ m])
    show "- 1 \<le> m" "m < nx" using m by simp_all
  qed (use m8 e sub f in \<open>simp_all add: data_frame_def\<close>)
  with accepted(2) show ?thesis by simp
qed


lemma gbn_process_ack_next [simp]:
  "gbs_next_seq_num (gbn_process_ack a s) = gbs_next_seq_num s"
  by (simp add: gbn_process_ack_def Let_def)

lemma gbn_ack_opt_next [simp]:
  "gbs_next_seq_num (gbn_ack_opt a s) = gbs_next_seq_num s"
  by (cases a) (simp_all add: gbn_ack_opt_def)

lemma gbn_timestamp_inv:
  assumes "gbn_snd_inv inp nx s" "map_of (gbs_window s) k = Some e"
  shows "gbn_snd_inv inp nx
           (s\<lparr>gbs_window := AList.update k (e\<lparr>we_timestamp := t\<rparr>) (gbs_window s)\<rparr>)"
proof (rule gbn_snd_invI)
  fix k' e'
  assume "map_of (gbs_window
      (s\<lparr>gbs_window := AList.update k (e\<lparr>we_timestamp := t\<rparr>) (gbs_window s)\<rparr>)) k' = Some e'"
  then have "(k' = k \<and> e' = e\<lparr>we_timestamp := t\<rparr>) \<or> map_of (gbs_window s) k' = Some e'"
    by (auto simp: AList.update_conv' split: if_splits)
  then show "gbs_base
      (s\<lparr>gbs_window := AList.update k (e\<lparr>we_timestamp := t\<rparr>) (gbs_window s)\<rparr>) \<le> k' \<and>
      k' < nx \<and> we_frame e' = data_frame (k' mod 8) (inp ! nat k')"
  proof
    assume "k' = k \<and> e' = e\<lparr>we_timestamp := t\<rparr>"
    with gbn_snd_inv_key [OF assms] show ?thesis by simp
  next
    assume "map_of (gbs_window s) k' = Some e'"
    from gbn_snd_inv_key [OF assms(1) this] show ?thesis by simp
  qed
qed (use assms(1) in \<open>simp_all add: gbn_snd_inv_def\<close>)

lemma gbn_admit_inv:
  assumes inv: "gbn_snd_inv inp n s" and can: "n < gbs_base s + gbs_window_size s"
    and n: "n < int (length inp)"
    and f: "we_frame e = data_frame (n mod 8) (inp ! nat n)"
  shows "gbn_snd_inv inp (n + 1) (s\<lparr>gbs_window := AList.update n e (gbs_window s)\<rparr>)"
proof (rule gbn_snd_invI)
  fix k' e'
  assume "map_of (gbs_window (s\<lparr>gbs_window := AList.update n e (gbs_window s)\<rparr>)) k' = Some e'"
  then have "(k' = n \<and> e' = e) \<or> map_of (gbs_window s) k' = Some e'"
    by (auto simp: AList.update_conv' split: if_splits)
  then show "gbs_base (s\<lparr>gbs_window := AList.update n e (gbs_window s)\<rparr>) \<le> k' \<and>
      k' < n + 1 \<and> we_frame e' = data_frame (k' mod 8) (inp ! nat k')"
  proof
    assume "k' = n \<and> e' = e"
    with inv f show ?thesis by (simp add: gbn_snd_inv_def)
  next
    assume "map_of (gbs_window s) k' = Some e'"
    from gbn_snd_inv_key [OF inv this] show ?thesis by simp
  qed
qed (use inv can n in \<open>simp_all add: gbn_snd_inv_def\<close>)

lemma gbn_rcv_inv_mono: "gbn_rcv_inv inp n r \<Longrightarrow> gbn_rcv_inv inp (n + 1) r"
  unfolding gbn_rcv_inv_def by (metis add.commute add_strict_increasing2 zero_le_one zless_add1_eq)

lemma gbn_resend_inv:
  assumes snd: "gbn_snd_inv inp nx s" and rcv: "gbn_rcv_inv inp nx r"
    and key: "map_of (gbs_window s) k = Some e"
  shows "gbn_snd_inv inp nx (gbn_ack_opt (fst (gbn_receive_frame (we_frame e) r w)) s)"
    and "gbn_rcv_inv inp nx (fst (snd (gbn_receive_frame (we_frame e) r w)))"
proof -
  show "gbn_snd_inv inp nx (gbn_ack_opt (fst (gbn_receive_frame (we_frame e) r w)) s)"
    using snd by (rule gbn_ack_opt_inv)
  from gbn_snd_inv_key [OF snd key]
  have k: "gbs_base s \<le> k" "k < nx" "we_frame e = data_frame (k mod 8) (inp ! nat k)"
    by simp_all
  from snd have b: "0 \<le> gbs_base s" "nx - gbs_base s \<le> max 0 (gbs_window_size s)"
    "gbs_window_size s \<le> 7" "nx \<le> int (length inp)"
    by (simp_all add: gbn_snd_inv_def)
  show "gbn_rcv_inv inp nx (fst (snd (gbn_receive_frame (we_frame e) r w)))"
    using rcv
  proof (rule gbn_receive_inv)
    show "0 \<le> k" "k < nx" "nx - 7 \<le> k" "nx \<le> int (length inp)" using k b by linarith+
    show "we_frame e = data_frame (k mod 8) (inp ! nat k)" by (rule k(3))
  qed
qed

lemma gbn_send_one_unfold:
  "gbn_send_one (s, r, w) =
    (let d = hd (gbs_data_buffer s);
         f = data_frame (gbs_next_seq_num s mod gbs_max_seq_num s) d;
         s2 = s\<lparr>gbs_data_buffer := tl (gbs_data_buffer s),
                gbs_window :=
                  AList.update (gbs_next_seq_num s)
                    \<lparr>we_frame = f, we_timestamp = clk w (clk_pos w), we_data = d\<rparr>
                    (gbs_window s),
                gbs_total_transmissions := gbs_total_transmissions s + 1\<rparr>;
         res = gbn_receive_frame f r (w\<lparr>clk_pos := Suc (clk_pos w)\<rparr>)
     in ((gbn_ack_opt (fst res) s2)\<lparr>gbs_next_seq_num := gbs_next_seq_num s + 1\<rparr>,
         fst (snd res), snd (snd res)))"
  by (simp add: gbn_send_one_def Let_def time_time_def split: prod.splits)

lemma gbn_inv_next:
  "gbn_snd_inv inp nx (s\<lparr>gbs_next_seq_num := a\<rparr>) = gbn_snd_inv inp nx s"
  by (rule gbn_snd_inv_cong) simp_all

lemma gbn_send_one_inv:
  assumes "gbn_inv inp st" "gbn_can_send (fst st)"
  shows "gbn_inv inp (gbn_send_one st)"
proof -
  obtain s r w where st: "st = (s, r, w)" by (cases st) auto
  let ?n = "gbs_next_seq_num s"
  let ?d = "hd (gbs_data_buffer s)"
  let ?f = "data_frame (?n mod gbs_max_seq_num s) ?d"
  let ?e = "\<lparr>we_frame = ?f, we_timestamp = clk w (clk_pos w), we_data = ?d\<rparr>"
  let ?s2 = "s\<lparr>gbs_data_buffer := tl (gbs_data_buffer s),
                gbs_window := AList.update ?n ?e (gbs_window s),
                gbs_total_transmissions := gbs_total_transmissions s + 1\<rparr>"
  let ?res = "gbn_receive_frame ?f r (w\<lparr>clk_pos := Suc (clk_pos w)\<rparr>)"
  from assms st have si: "gbn_snd_inv inp ?n s" and ri: "gbn_rcv_inv inp ?n r"
    and n0: "0 \<le> ?n" and buf: "gbs_data_buffer s = drop (nat ?n) inp"
    and can: "?n < gbs_base s + gbs_window_size s" and ne: "gbs_data_buffer s \<noteq> []"
    by (simp_all add: gbn_inv_def gbn_can_send_def)
  from si have m: "gbs_max_seq_num s = 8" by (simp add: gbn_snd_inv_def)
  from ne buf have nl: "nat ?n < length inp" by (metis drop_eq_Nil not_le)
  then have nl': "?n < int (length inp)" using n0 by linarith
  from buf nl have d: "?d = inp ! nat ?n" by (simp add: hd_drop_conv_nth)
  have fr: "we_frame ?e = data_frame (?n mod 8) (inp ! nat ?n)" by (simp add: m d)
  have "gbn_snd_inv inp (?n + 1) (s\<lparr>gbs_window := AList.update ?n ?e (gbs_window s)\<rparr>)"
    using si can nl' fr by (rule gbn_admit_inv)
  moreover have "gbn_snd_inv inp (?n + 1) ?s2 =
      gbn_snd_inv inp (?n + 1) (s\<lparr>gbs_window := AList.update ?n ?e (gbs_window s)\<rparr>)"
    by (rule gbn_snd_inv_cong) simp_all
  ultimately have s2: "gbn_snd_inv inp (?n + 1) ?s2" by simp
  have k2: "map_of (gbs_window ?s2) ?n = Some ?e" by (simp add: AList.update_conv')
  have r2: "gbn_rcv_inv inp (?n + 1) r" using ri by (rule gbn_rcv_inv_mono)
  from gbn_resend_inv [OF s2 r2 k2, of "w\<lparr>clk_pos := Suc (clk_pos w)\<rparr>"]
  have a: "gbn_snd_inv inp (?n + 1) (gbn_ack_opt (fst ?res) ?s2)"
    and b: "gbn_rcv_inv inp (?n + 1) (fst (snd ?res))"
    by simp_all
  have c: "gbs_data_buffer (gbn_ack_opt (fst ?res) ?s2) = drop (nat (?n + 1)) inp"
    using buf n0 by (simp add: drop_Suc tl_drop nat_add_distrib)
  show ?thesis
    using a b c n0
    by (simp add: st gbn_send_one_unfold Let_def gbn_inv_def gbn_inv_next)
qed

lemma gbn_send_new_inv: "gbn_inv inp st \<Longrightarrow> gbn_inv inp (gbn_send_new st)"
proof (induction st rule: gbn_send_new.induct)
  case (1 st)
  show ?case
  proof (cases "gbn_can_send (fst st)")
    case True
    with 1 show ?thesis by (simp add: gbn_send_new.simps [of st] gbn_send_one_inv)
  next
    case False
    with 1 show ?thesis by (simp add: gbn_send_new.simps [of st])
  qed
qed


lemma gbn_inv_world: "gbn_inv inp (s, r, w) \<Longrightarrow> gbn_inv inp (s, r, w')"
  by (simp add: gbn_inv_def)

lemma gbn_retransmit_loop_inv:
  "gbn_inv inp (s, r, w) \<Longrightarrow> gbn_inv inp (gbn_retransmit_loop ks s r w)"
proof (induction ks arbitrary: s r w)
  case Nil
  then show ?case by simp
next
  case (Cons k ks)
  show ?case
  proof (cases "map_of (gbs_window s) k")
    case None
    with Cons show ?thesis by simp
  next
    case (Some e)
    let ?n = "gbs_next_seq_num s"
    let ?s1 = "s\<lparr>gbs_total_transmissions := gbs_total_transmissions s + 1,
                 gbs_retransmissions := gbs_retransmissions s + 1,
                 gbs_total_retransmission_count := gbs_total_retransmission_count s + 1\<rparr>"
    let ?s2 = "?s1\<lparr>gbs_window :=
                 AList.update k (e\<lparr>we_timestamp := fst (time_time w)\<rparr>) (gbs_window ?s1)\<rparr>"
    let ?res = "gbn_receive_frame (we_frame e) r (snd (time_time w))"
    let ?s3 = "gbn_ack_opt (fst ?res) ?s2"
    from Cons.prems have si: "gbn_snd_inv inp ?n s" and ri: "gbn_rcv_inv inp ?n r"
      and n0: "0 \<le> ?n" and buf: "gbs_data_buffer s = drop (nat ?n) inp"
      by (simp_all add: gbn_inv_def)
    have "gbn_snd_inv inp ?n ?s1 = gbn_snd_inv inp ?n s" by (rule gbn_snd_inv_cong) simp_all
    with si have s1: "gbn_snd_inv inp ?n ?s1" by simp
    have k1: "map_of (gbs_window ?s1) k = Some e" using Some by simp
    have s2: "gbn_snd_inv inp ?n ?s2" using s1 k1 by (rule gbn_timestamp_inv)
    have k2: "map_of (gbs_window ?s2) k = Some (e\<lparr>we_timestamp := fst (time_time w)\<rparr>)"
      by (simp add: AList.update_conv')
    from gbn_resend_inv [OF s2 ri k2, of "snd (time_time w)"]
    have a: "gbn_snd_inv inp ?n ?s3" and b: "gbn_rcv_inv inp ?n (fst (snd ?res))"
      by simp_all
    have i1: "gbn_inv inp (?s1, r, w)" using s1 ri n0 buf by (simp add: gbn_inv_def)
    have i3: "gbn_inv inp (?s3, fst (snd ?res), snd (snd ?res))"
      using a b n0 buf by (simp add: gbn_inv_def)
    show ?thesis
    proof (cases "gbs_total_retransmission_count ?s1 \<ge> gbs_max_retransmissions ?s1")
      case True
      with Some i1 show ?thesis by (simp add: Let_def)
    next
      case False
      have "gbn_retransmit_loop (k # ks) s r w =
          gbn_retransmit_loop ks ?s3 (fst (snd ?res)) (snd (snd ?res))"
        using Some False by (simp add: Let_def)
      with Cons.IH [OF i3] show ?thesis by simp
    qed
  qed
qed

lemma go_back_n_retransmit_inv:
  "gbn_inv inp (s, r, w) \<Longrightarrow> gbn_inv inp (go_back_n_retransmit k s r w)"
  by (simp add: go_back_n_retransmit_def Let_def gbn_retransmit_loop_inv)

lemma gbn_check_timeouts_inv: "gbn_inv inp st \<Longrightarrow> gbn_inv inp (gbn_check_timeouts st)"
proof -
  assume a: "gbn_inv inp st"
  obtain s r w where st: "st = (s, r, w)" by (cases st) auto
  from a st have b: "gbn_inv inp (s, r, snd (time_time w))" by (simp add: gbn_inv_def)
  then show ?thesis
    by (cases "time_time w")
       (simp add: st gbn_check_timeouts_def Let_def go_back_n_retransmit_inv
          split: option.splits)
qed

lemma gbn_iteration_inv: "gbn_inv inp st \<Longrightarrow> gbn_inv inp (gbn_iteration i st)"
  by (simp add: gbn_iteration_def Let_def gbn_send_new_inv gbn_check_timeouts_inv)

lemma gbn_send_loop_inv: "gbn_inv inp st \<Longrightarrow> gbn_inv inp (snd (gbn_send_loop i st))"
proof (induction i st rule: gbn_send_loop.induct)
  case (1 i st)
  let ?c = "(gbs_data_buffer (fst st) \<noteq> [] \<or> gbs_window (fst st) \<noteq> []) \<and> i < 500"
  show ?case
  proof (cases ?c)
    case False
    have "gbn_send_loop i st = (i, st)"
      by (subst gbn_send_loop.simps) (rule if_not_P [OF False])
    with "1.prems" show ?thesis by simp
  next
    case True
    let ?st2 = "gbn_iteration (i + 1) st"
    have i2: "gbn_inv inp ?st2" using "1.prems" by (rule gbn_iteration_inv)
    show ?thesis
    proof (cases "gbs_window (fst ?st2) = [] \<and> gbs_data_buffer (fst ?st2) = []")
      case d: True
      have "gbn_send_loop i st = (i + 1, ?st2)"
        using True d by (subst gbn_send_loop.simps) (simp add: Let_def)
      with i2 show ?thesis by simp
    next
      case d: False
      have "gbn_send_loop i st =
          (if gbs_window (fst ?st2) = [] \<and> gbs_data_buffer (fst ?st2) = []
           then (i + 1, ?st2) else gbn_send_loop (i + 1) ?st2)"
        by (subst gbn_send_loop.simps) (simp only: if_P [OF True] Let_def)
      also have "\<dots> = gbn_send_loop (i + 1) ?st2" by (rule if_not_P [OF d])
      finally have "gbn_send_loop i st = gbn_send_loop (i + 1) ?st2" .
      moreover have "gbn_inv inp (snd (gbn_send_loop (i + 1) ?st2))"
        using True d i2 by (intro "1.IH" [of "i + 1" ?st2]) simp_all
      ultimately show ?thesis by simp
    qed
  qed
qed

lemma gbn_init_inv:
  assumes "ws \<le> 7"
  shows "gbn_inv ds (gbn_add_data ds (GoBackNSender_init ws t), GoBackNReceiver_init, w)"
proof -
  have "gbn_rcv_inv ds 0 GoBackNReceiver_init"
    unfolding gbn_rcv_inv_def
    by (intro conjI exI [of _ "- 1"]) (simp_all add: GoBackNReceiver_init_def)
  moreover have "gbn_snd_inv ds 0 (gbn_add_data ds (GoBackNSender_init ws t))"
    using assms by (simp add: gbn_snd_inv_def gbn_add_data_def GoBackNSender_init_def)
  ultimately show ?thesis
    by (simp add: gbn_inv_def gbn_add_data_def GoBackNSender_init_def)
qed

lemma gbn_inv_subseq:
  assumes "gbn_inv inp (s, r, w)"
  shows "subseq (gbr_received_frames r) inp"
proof -
  from assms obtain l where "subseq (gbr_received_frames r) (take (nat (l + 1)) inp)"
    unfolding gbn_inv_def gbn_rcv_inv_def by auto
  moreover have "subseq (take (nat (l + 1)) inp) inp"
    by (rule prefix_imp_subseq [OF take_is_prefix])
  ultimately show ?thesis by (rule subseq_order.order_trans)
qed

lemma gbn_in_order:
  assumes "ws \<le> 7"
  shows "subseq (gbr_received_frames (fst (snd (snd
            (gbn_send_frames (gbn_add_data ds (GoBackNSender_init ws t)) GoBackNReceiver_init w)))))
          ds"
proof -
  let ?res = "gbn_send_frames (gbn_add_data ds (GoBackNSender_init ws t)) GoBackNReceiver_init w"
  have "gbn_inv ds (snd ?res)"
    unfolding gbn_send_frames_def using gbn_init_inv [OF assms] by (rule gbn_send_loop_inv)
  then have "gbn_inv ds (fst (snd ?res), fst (snd (snd ?res)), snd (snd (snd ?res)))" by simp
  then show ?thesis by (rule gbn_inv_subseq)
qed

section \<open>Selective Repeat delivers a prefix of the input\<close>

lemma sr_in_window_iff:
  assumes "srr_max_seq_num r = 8" "1 \<le> srr_window_size r" "srr_window_size r \<le> 4"
    and "srr_base r - srr_window_size r \<le> k" "k < srr_base r + srr_window_size r"
  shows "is_in_window r (k mod 8) \<longleftrightarrow> srr_base r \<le> k"
proof -
  let ?b = "srr_base r" and ?w = "srr_window_size r"
  have e: "(?b + ?w - 1) mod 8 = (?b mod 8 + ?w - 1) mod 8"
  proof -
    have "(?b + ?w - 1) mod 8 = (?b + (?w - 1)) mod 8" by (simp add: algebra_simps)
    also have "\<dots> = (?b mod 8 + (?w - 1)) mod 8" by (simp only: mod_add_left_eq)
    finally show ?thesis by (simp add: algebra_simps)
  qed
  have "is_in_window r (k mod 8) \<longleftrightarrow> (k mod 8 - ?b mod 8) mod 8 < ?w"
    unfolding is_in_window_8 [OF assms(1)] e
    by (rule window_test_iff) (use assms in simp_all)
  also have "\<dots> \<longleftrightarrow> (k - ?b) mod 8 < ?w" by (simp only: residue_offset)
  also have "\<dots> \<longleftrightarrow> ?b \<le> k"
  proof (cases "?b \<le> k")
    case True
    with assms have "(k - ?b) mod 8 = k - ?b" by (intro offset_nonneg) simp_all
    with True assms show ?thesis by simp
  next
    case False
    with assms have "(k - ?b) mod 8 = k - ?b + 8" by (intro offset_neg) simp_all
    with False assms show ?thesis by simp
  qed
  finally show ?thesis .
qed

lemma sr_rcv_inv_cong:
  "srr_max_seq_num r' = srr_max_seq_num r \<Longrightarrow> srr_window_size r' = srr_window_size r \<Longrightarrow>
   srr_base r' = srr_base r \<Longrightarrow> srr_buffer r' = srr_buffer r \<Longrightarrow>
   srr_received_frames r' = srr_received_frames r \<Longrightarrow>
   sr_rcv_inv inp ws nx r' = sr_rcv_inv inp ws nx r"
  by (simp add: sr_rcv_inv_def)

lemma sr_received_cong:
  "srr_base r' = srr_base r \<Longrightarrow> srr_buffer r' = srr_buffer r \<Longrightarrow>
   sr_received r' k = sr_received r k"
  by (simp add: sr_received_def)

lemma sr_rcv_inv_buf:
  "sr_rcv_inv inp ws nx r \<Longrightarrow> map_of (srr_buffer r) q = Some d \<Longrightarrow>
   \<exists>k. srr_base r \<le> k \<and> k < srr_base r + ws \<and> k < nx \<and> k mod 8 = q \<and> d = inp ! nat k"
  unfolding sr_rcv_inv_def by blast

lemma sr_rcv_invI:
  assumes "srr_max_seq_num r = 8" "srr_window_size r = ws" "0 \<le> srr_base r" "srr_base r \<le> nx"
    "nx \<le> int (length inp)" "srr_received_frames r = take (nat (srr_base r)) inp"
    and "\<And>q d. map_of (srr_buffer r) q = Some d \<Longrightarrow>
        \<exists>k. srr_base r \<le> k \<and> k < srr_base r + ws \<and> k < nx \<and> k mod 8 = q \<and> d = inp ! nat k"
  shows "sr_rcv_inv inp ws nx r"
  using assms unfolding sr_rcv_inv_def by blast


lemma deliver_frames_core:
  assumes "sr_rcv_inv inp ws nx r" "ws \<le> 8"
  shows "sr_rcv_inv inp ws nx (deliver_frames r) \<and>
         map_of (srr_buffer (deliver_frames r)) (srr_base (deliver_frames r) mod 8) = None \<and>
         (\<forall>k. k < srr_base r + 8 \<longrightarrow> sr_received r k \<longrightarrow> sr_received (deliver_frames r) k)"
  using assms
proof (induction r rule: deliver_frames.induct)
  case (1 r)
  from "1.prems" have m: "srr_max_seq_num r = 8" by (simp add: sr_rcv_inv_def)
  show ?case
  proof (cases "map_of (srr_buffer r) (srr_base r mod srr_max_seq_num r)")
    case None
    then have "deliver_frames r = r" by (simp add: deliver_frames.simps [of r])
    with "1.prems" None m show ?thesis by simp
  next
    case (Some d)
    let ?b = "srr_base r"
    let ?r' = "r\<lparr>srr_received_frames := srr_received_frames r @ [d],
               srr_buffer := AList.delete (srr_base r mod srr_max_seq_num r) (srr_buffer r),
               srr_base := srr_base r + 1\<rparr>"
    have step: "deliver_frames r = deliver_frames ?r'"
      using Some by (simp add: deliver_frames.simps [of r])
    from Some m have "map_of (srr_buffer r) (?b mod 8) = Some d" by simp
    from sr_rcv_inv_buf [OF "1.prems"(1) this]
    obtain k where k: "?b \<le> k" "k < ?b + ws" "k < nx" "k mod 8 = ?b mod 8" "d = inp ! nat k"
      by blast
    from k(1,2) "1.prems"(2) have "\<bar>k - ?b\<bar> < 8" by simp
    with k(4) have kb: "k = ?b" by (rule same_residue_close)
    from "1.prems"(1) have b0: "0 \<le> ?b" and nl: "nx \<le> int (length inp)"
      and rf: "srr_received_frames r = take (nat ?b) inp" and w: "srr_window_size r = ws"
      by (simp_all add: sr_rcv_inv_def)
    have inv': "sr_rcv_inv inp ws nx ?r'"
    proof (rule sr_rcv_invI)
      show "srr_max_seq_num ?r' = 8" using m by simp
      show "srr_window_size ?r' = ws" using w by simp
      show "0 \<le> srr_base ?r'" using b0 by simp
      show "srr_base ?r' \<le> nx" using k(3) kb by simp
      show "nx \<le> int (length inp)" by (rule nl)
      have "nat ?b < length inp" using k(3) kb nl b0 by linarith
      then have "take (Suc (nat ?b)) inp = take (nat ?b) inp @ [inp ! nat ?b]"
        by (rule take_Suc_conv_app_nth)
      moreover have "nat (?b + 1) = Suc (nat ?b)" using b0 by simp
      ultimately show "srr_received_frames ?r' = take (nat (srr_base ?r')) inp"
        using rf k(5) kb by simp
    next
      fix q d'
      assume a: "map_of (srr_buffer ?r') q = Some d'"
      then have ne: "q \<noteq> ?b mod 8" and old: "map_of (srr_buffer r) q = Some d'"
        using m by (auto simp: AList.delete_conv' split: if_splits)
      from sr_rcv_inv_buf [OF "1.prems"(1) old]
      obtain j where j: "?b \<le> j" "j < ?b + ws" "j < nx" "j mod 8 = q" "d' = inp ! nat j"
        by blast
      from j(4) ne have "j \<noteq> ?b" by auto
      with j have "srr_base ?r' \<le> j \<and> j < srr_base ?r' + ws \<and> j < nx \<and> j mod 8 = q \<and>
          d' = inp ! nat j" by simp
      then show "\<exists>k. srr_base ?r' \<le> k \<and> k < srr_base ?r' + ws \<and> k < nx \<and> k mod 8 = q \<and>
          d' = inp ! nat k" ..
    qed
    have mono: "sr_received ?r' j" if j: "j < ?b + 8" "sr_received r j" for j
    proof (cases "j < ?b")
      case True
      then show ?thesis by (simp add: sr_received_def)
    next
      case False
      with j(2) have buf: "map_of (srr_buffer r) (j mod 8) \<noteq> None"
        by (simp add: sr_received_def)
      show ?thesis
      proof (cases "j mod 8 = ?b mod 8")
        case True
        moreover from False j(1) have "\<bar>j - ?b\<bar> < 8" by simp
        ultimately have "j = ?b" by (rule same_residue_close)
        then show ?thesis by (simp add: sr_received_def)
      next
        case ne: False
        with buf m show ?thesis by (simp add: sr_received_def AList.delete_conv')
      qed
    qed
    from "1.IH" [OF Some inv' "1.prems"(2)]
    have ih: "sr_rcv_inv inp ws nx (deliver_frames ?r')"
      "map_of (srr_buffer (deliver_frames ?r')) (srr_base (deliver_frames ?r') mod 8) = None"
      "\<And>j. j < srr_base ?r' + 8 \<Longrightarrow> sr_received ?r' j \<Longrightarrow> sr_received (deliver_frames ?r') j"
      by blast+
    have "sr_received (deliver_frames ?r') j" if j: "j < ?b + 8" "sr_received r j" for j
    proof (rule ih(3))
      show "j < srr_base ?r' + 8" using j(1) by simp
      show "sr_received ?r' j" using j by (rule mono)
    qed
    with ih(1,2) show ?thesis unfolding step by blast
  qed
qed


lemma deliver_frames_base_mono: "srr_base r \<le> srr_base (deliver_frames r)"
proof (induction r rule: deliver_frames.induct)
  case (1 r)
  show ?case
  proof (cases "map_of (srr_buffer r) (srr_base r mod srr_max_seq_num r)")
    case None
    then show ?thesis by (simp add: deliver_frames.simps [of r])
  next
    case (Some d)
    from "1.IH" [OF Some] Some show ?thesis by (simp add: deliver_frames.simps [of r])
  qed
qed

lemma sr_snd_inv_key:
  "sr_snd_inv inp nx s r \<Longrightarrow> map_of (srs_window s) k = Some e \<Longrightarrow>
     srs_base s \<le> k \<and> k < nx \<and> we_frame e = data_frame (k mod 8) (inp ! nat k)"
  unfolding sr_snd_inv_def by blast

lemma sr_snd_inv_ack:
  "sr_snd_inv inp nx s r \<Longrightarrow> a |\<in>| srs_ack_received s \<Longrightarrow>
     \<exists>p. srs_base s \<le> p \<and> p < nx \<and> p mod 8 = a \<and> map_of (srs_window s) p = None"
  unfolding sr_snd_inv_def by blast

lemma sr_snd_inv_received:
  "sr_snd_inv inp nx s r \<Longrightarrow> srs_base s \<le> k \<Longrightarrow> k < nx \<Longrightarrow>
     map_of (srs_window s) k = None \<Longrightarrow> sr_received r k"
  unfolding sr_snd_inv_def by blast

lemma sr_snd_invI:
  assumes "srs_max_seq_num s = 8" "srs_window_size s \<le> 4" "0 \<le> srs_base s"
    "srs_base s \<le> srr_base r" "srs_base s \<le> nx" "nx - srs_base s \<le> max 0 (srs_window_size s)"
    and "\<And>k e. map_of (srs_window s) k = Some e \<Longrightarrow>
        srs_base s \<le> k \<and> k < nx \<and> we_frame e = data_frame (k mod 8) (inp ! nat k)"
    and "\<And>a. a |\<in>| srs_ack_received s \<Longrightarrow>
        \<exists>p. srs_base s \<le> p \<and> p < nx \<and> p mod 8 = a \<and> map_of (srs_window s) p = None"
    and "\<And>k. srs_base s \<le> k \<Longrightarrow> k < nx \<Longrightarrow> map_of (srs_window s) k = None \<Longrightarrow>
        sr_received r k"
  shows "sr_snd_inv inp nx s r"
  using assms unfolding sr_snd_inv_def by blast

lemma sr_snd_inv_config:
  assumes "sr_snd_inv inp nx s r"
  shows "srs_max_seq_num s = 8" "srs_window_size s \<le> 4" "0 \<le> srs_base s"
    "srs_base s \<le> srr_base r" "srs_base s \<le> nx" "nx - srs_base s \<le> max 0 (srs_window_size s)"
  using assms by (simp_all add: sr_snd_inv_def)

lemma sr_snd_inv_cong:
  "srs_max_seq_num s' = srs_max_seq_num s \<Longrightarrow> srs_base s' = srs_base s \<Longrightarrow>
   srs_window_size s' = srs_window_size s \<Longrightarrow> srs_window s' = srs_window s \<Longrightarrow>
   srs_ack_received s' = srs_ack_received s \<Longrightarrow>
   sr_snd_inv inp nx s' r = sr_snd_inv inp nx s r"
  by (simp add: sr_snd_inv_def)

lemma sr_snd_inv_rcv_mono:
  assumes inv: "sr_snd_inv inp nx s r" and b: "srr_base r \<le> srr_base r'"
    and mono: "\<And>k. srs_base s \<le> k \<Longrightarrow> k < nx \<Longrightarrow> sr_received r k \<Longrightarrow> sr_received r' k"
  shows "sr_snd_inv inp nx s r'"
proof (rule sr_snd_invI)
  note c = sr_snd_inv_config [OF inv]
  show "srs_max_seq_num s = 8" "srs_window_size s \<le> 4" "0 \<le> srs_base s" "srs_base s \<le> nx"
    "nx - srs_base s \<le> max 0 (srs_window_size s)" by (rule c)+
  show "srs_base s \<le> srr_base r'" using c(4) b by simp
  show "\<And>k e. map_of (srs_window s) k = Some e \<Longrightarrow>
        srs_base s \<le> k \<and> k < nx \<and> we_frame e = data_frame (k mod 8) (inp ! nat k)"
    using inv by (rule sr_snd_inv_key)
  show "\<And>a. a |\<in>| srs_ack_received s \<Longrightarrow>
        \<exists>p. srs_base s \<le> p \<and> p < nx \<and> p mod 8 = a \<and> map_of (srs_window s) p = None"
    using inv by (rule sr_snd_inv_ack)
  show "sr_received r' k" if "srs_base s \<le> k" "k < nx" "map_of (srs_window s) k = None" for k
    using that(1,2) sr_snd_inv_received [OF inv that] by (rule mono)
qed

lemma sr_snd_inv_span:
  assumes "sr_snd_inv inp nx s r" "srs_base s \<le> k" "k < nx"
  shows "1 \<le> srs_window_size s" "nx \<le> srs_base s + srs_window_size s"
  using sr_snd_inv_config [OF assms(1)] assms(2,3) by simp_all

lemma sr_process_ack_window:
  assumes inv: "sr_snd_inv inp nx s r" and k: "srs_base s \<le> k" "k < nx"
  shows "map_of (srs_window (sr_process_ack (k mod 8) s)) m =
           (if m = k then None else map_of (srs_window s) m)"
proof -
  note c = sr_snd_inv_config [OF inv]
  have w: "map_of (srs_window (sr_process_ack (k mod 8) s)) m =
      (if m mod 8 = k mod 8 \<and> m \<in> fst ` set (srs_window s) then None
       else map_of (srs_window s) m)"
    using c(1) by (simp add: sr_process_ack_def Let_def map_of_fold_delete)
  show ?thesis
  proof (cases "m \<in> fst ` set (srs_window s)")
    case False
    then have "map_of (srs_window s) m = None" by (simp add: map_of_eq_None_iff)
    with w False show ?thesis by simp
  next
    case True
    then obtain e where e: "map_of (srs_window s) m = Some e"
      by (cases "map_of (srs_window s) m") (simp_all add: map_of_eq_None_iff)
    from sr_snd_inv_key [OF inv e] have m: "srs_base s \<le> m" "m < nx" by simp_all
    have "m = k" if "m mod 8 = k mod 8"
    proof -
      from m k c(2,6) have "\<bar>m - k\<bar> < 8" by simp
      with that show ?thesis by (rule same_residue_close)
    qed
    with w True show ?thesis by auto
  qed
qed

lemma sr_process_ack_core:
  assumes inv: "sr_snd_inv inp nx s r" and k: "srs_base s \<le> k" "k < nx"
    and rec: "sr_received r k"
  shows "sr_snd_inv inp nx (sr_process_ack (k mod 8) s) r"
proof (rule sr_snd_invI)
  let ?s' = "sr_process_ack (k mod 8) s"
  note c = sr_snd_inv_config [OF inv]
  note w = sr_process_ack_window [OF inv k]
  have acks: "srs_ack_received ?s' = finsert (k mod 8) (srs_ack_received s)"
    by (simp add: sr_process_ack_def Let_def)
  show "srs_max_seq_num ?s' = 8" "srs_window_size ?s' \<le> 4" "0 \<le> srs_base ?s'"
    "srs_base ?s' \<le> srr_base r" "srs_base ?s' \<le> nx"
    "nx - srs_base ?s' \<le> max 0 (srs_window_size ?s')"
    using c by simp_all
  show "srs_base ?s' \<le> m \<and> m < nx \<and> we_frame e = data_frame (m mod 8) (inp ! nat m)"
    if "map_of (srs_window ?s') m = Some e" for m e
  proof -
    from that have "map_of (srs_window s) m = Some e" by (simp add: w split: if_splits)
    from sr_snd_inv_key [OF inv this] show ?thesis by simp
  qed
  show "\<exists>p. srs_base ?s' \<le> p \<and> p < nx \<and> p mod 8 = a \<and> map_of (srs_window ?s') p = None"
    if "a |\<in>| srs_ack_received ?s'" for a
  proof (cases "a = k mod 8")
    case True
    with k have "srs_base ?s' \<le> k \<and> k < nx \<and> k mod 8 = a \<and> map_of (srs_window ?s') k = None"
      by (simp add: w)
    then show ?thesis ..
  next
    case False
    with that have "a |\<in>| srs_ack_received s" by (simp add: acks)
    from sr_snd_inv_ack [OF inv this] obtain p where
      "srs_base s \<le> p" "p < nx" "p mod 8 = a" "map_of (srs_window s) p = None" by blast
    then have "srs_base ?s' \<le> p \<and> p < nx \<and> p mod 8 = a \<and> map_of (srs_window ?s') p = None"
      by (simp add: w)
    then show ?thesis ..
  qed
  show "sr_received r m"
    if "srs_base ?s' \<le> m" "m < nx" "map_of (srs_window ?s') m = None" for m
  proof (cases "m = k")
    case True
    with rec show ?thesis by simp
  next
    case False
    with that have "srs_base s \<le> m" "m < nx" "map_of (srs_window s) m = None"
      by (simp_all add: w)
    with inv show ?thesis by (rule sr_snd_inv_received)
  qed
qed

lemma sr_process_acks_core:
  assumes "sr_snd_inv inp nx s r" "srs_base s \<le> k" "k < nx"
    and "a = None \<or> a = Some [] \<or> (a = Some [k mod 8] \<and> sr_received r k)"
  shows "sr_snd_inv inp nx (sr_process_acks a s) r"
  using assms by (auto simp: sr_process_acks_def sr_process_ack_core)


lemma sr_pair_inv_rcv_cong:
  "srr_max_seq_num r' = srr_max_seq_num r \<Longrightarrow> srr_window_size r' = srr_window_size r \<Longrightarrow>
   srr_base r' = srr_base r \<Longrightarrow> srr_buffer r' = srr_buffer r \<Longrightarrow>
   srr_received_frames r' = srr_received_frames r \<Longrightarrow>
   sr_pair_inv inp nx s r' = sr_pair_inv inp nx s r"
  by (simp add: sr_pair_inv_def sr_snd_inv_def sr_rcv_inv_def sr_received_def)

lemma sr_pair_inv_snd_cong:
  "srs_max_seq_num s' = srs_max_seq_num s \<Longrightarrow> srs_base s' = srs_base s \<Longrightarrow>
   srs_window_size s' = srs_window_size s \<Longrightarrow> srs_window s' = srs_window s \<Longrightarrow>
   srs_ack_received s' = srs_ack_received s \<Longrightarrow>
   sr_pair_inv inp nx s' r = sr_pair_inv inp nx s r"
  by (simp add: sr_pair_inv_def sr_snd_inv_def)

lemma sr_transmit_core:
  assumes inv: "sr_pair_inv inp nx s r" and key: "map_of (srs_window s) k = Some e"
  shows "sr_pair_inv inp nx (sr_process_acks (fst (sr_receive_frame (we_frame e) r w)) s)
           (fst (snd (sr_receive_frame (we_frame e) r w)))"
proof -
  let ?W = "srs_window_size s"
  from inv have snd: "sr_snd_inv inp nx s r" and rcv: "sr_rcv_inv inp ?W nx r"
    and up: "map_of (srr_buffer r) (srr_base r mod 8) = None"
    by (simp_all add: sr_pair_inv_def)
  note c = sr_snd_inv_config [OF snd]
  from sr_snd_inv_key [OF snd key]
  have k: "srs_base s \<le> k" "k < nx" and f: "we_frame e = data_frame (k mod 8) (inp ! nat k)"
    by simp_all
  have sq: "seq_num (we_frame e) = k mod 8" and dt: "data (we_frame e) = inp ! nat k"
    by (simp_all add: f data_frame_def)
  note span = sr_snd_inv_span [OF snd k]
  from rcv have rm: "srr_max_seq_num r = 8" and rw: "srr_window_size r = ?W"
    and rb: "srr_base r \<le> nx" by (simp_all add: sr_rcv_inv_def)
  have lo: "srr_base r - srr_window_size r \<le> k" using rb span(2) k(1) rw by simp
  have hi: "k < srr_base r + srr_window_size r" using k(2) span(2) c(4) rw by simp
  have win: "is_in_window r (k mod 8) \<longleftrightarrow> srr_base r \<le> k"
    using rm span(1) c(2) lo hi unfolding rw [symmetric] by (intro sr_in_window_iff) simp_all
  show ?thesis
  proof (cases rule: sr_receive_frame_cases [of "we_frame e" r w])
    case (lost w1)
    have "sr_pair_inv inp nx s (r\<lparr>srr_total_frames_received := srr_total_frames_received r + 1\<rparr>)
        = sr_pair_inv inp nx s r" by (rule sr_pair_inv_rcv_cong) simp_all
    with inv show ?thesis by (simp add: lost sr_process_acks_def)
  next
    case (corrupted w2)
    have "sr_pair_inv inp nx s (r\<lparr>srr_total_frames_received := srr_total_frames_received r + 1,
                  srr_frames_discarded := srr_frames_discarded r + 1\<rparr>)
        = sr_pair_inv inp nx s r" by (rule sr_pair_inv_rcv_cong) simp_all
    with inv show ?thesis by (simp add: corrupted sr_process_acks_def)
  next
    case (discarded w2)
    have "sr_pair_inv inp nx s (r\<lparr>srr_total_frames_received := srr_total_frames_received r + 1,
                  srr_frames_discarded := srr_frames_discarded r + 1\<rparr>)
        = sr_pair_inv inp nx s r" by (rule sr_pair_inv_rcv_cong) simp_all
    with inv show ?thesis by (simp add: discarded sr_process_acks_def)
  next
    case (delivered a w3)
    let ?r' = "r\<lparr>srr_total_frames_received := srr_total_frames_received r + 1\<rparr>"
    from delivered(1) win sq have "k < srr_base r" by simp
    then have rec: "sr_received r k" by (simp add: sr_received_def)
    have "sr_snd_inv inp nx (sr_process_acks (if a then Some [k mod 8] else None) s) r"
      using snd k by (rule sr_process_acks_core) (simp add: rec)
    with rcv up have "sr_pair_inv inp nx (sr_process_acks (if a then Some [k mod 8] else None) s) r"
      by (simp add: sr_pair_inv_def)
    moreover have "sr_pair_inv inp nx (sr_process_acks (if a then Some [k mod 8] else None) s) ?r'
        = sr_pair_inv inp nx (sr_process_acks (if a then Some [k mod 8] else None) s) r"
      by (rule sr_pair_inv_rcv_cong) simp_all
    ultimately show ?thesis by (cases a) (simp_all add: delivered sq)
  next
    case (in_window a w3)
    define r1 where "r1 =
            (if map_of (srr_buffer r) (seq_num (we_frame e)) \<noteq> None
             then r\<lparr>srr_total_frames_received := srr_total_frames_received r + 1,
                    srr_duplicate_frames := srr_duplicate_frames r + 1\<rparr>
             else r\<lparr>srr_total_frames_received := srr_total_frames_received r + 1,
                    srr_buffer := AList.update (seq_num (we_frame e)) (data (we_frame e))
                      (srr_buffer r)\<rparr>)"
    have res: "sr_receive_frame (we_frame e) r w =
        (Some (if a then [k mod 8] else []), deliver_frames r1, w3)"
      unfolding r1_def in_window(2) sq ..
    from in_window(1) win sq have bk: "srr_base r \<le> k" by simp
    have b1: "srr_base r1 = srr_base r" and m1: "srr_max_seq_num r1 = srr_max_seq_num r"
      and w1: "srr_window_size r1 = srr_window_size r"
      and f1: "srr_received_frames r1 = srr_received_frames r"
      by (simp_all add: r1_def)
    have buf1: "map_of (srr_buffer r1) q =
        (if q = k mod 8 \<and> map_of (srr_buffer r) (k mod 8) = None then Some (inp ! nat k)
         else map_of (srr_buffer r) q)" for q
      by (simp add: r1_def sq dt AList.update_conv')
    have rcv1: "sr_rcv_inv inp ?W nx r1"
    proof (rule sr_rcv_invI)
      show "srr_max_seq_num r1 = 8" using rm by (simp add: m1)
      show "srr_window_size r1 = ?W" using rw by (simp add: w1)
      show "0 \<le> srr_base r1" using rcv by (simp add: sr_rcv_inv_def b1)
      show "srr_base r1 \<le> nx" using rb by (simp add: b1)
      show "nx \<le> int (length inp)" using rcv by (simp add: sr_rcv_inv_def)
      show "srr_received_frames r1 = take (nat (srr_base r1)) inp"
        using rcv by (simp add: sr_rcv_inv_def b1 f1)
    next
      fix q d
      assume a: "map_of (srr_buffer r1) q = Some d"
      show "\<exists>j. srr_base r1 \<le> j \<and> j < srr_base r1 + ?W \<and> j < nx \<and> j mod 8 = q \<and>
          d = inp ! nat j"
      proof (cases "q = k mod 8 \<and> map_of (srr_buffer r) (k mod 8) = None")
        case True
        with a [unfolded buf1] have "d = inp ! nat k" by simp
        with True bk hi k(2) rw
        have "srr_base r1 \<le> k \<and> k < srr_base r1 + ?W \<and> k < nx \<and> k mod 8 = q \<and>
          d = inp ! nat k" by (simp add: b1)
        then show ?thesis ..
      next
        case False
        with a [unfolded buf1] have "map_of (srr_buffer r) q = Some d"
          by (simp split: if_splits)
        from sr_rcv_inv_buf [OF rcv this] show ?thesis unfolding b1 .
      qed
    qed
    have rec1: "sr_received r1 k" unfolding sr_received_def buf1 by simp
    have mono1: "sr_received r1 j" if "sr_received r j" for j
      using that unfolding sr_received_def buf1 b1 by auto
    from deliver_frames_core [OF rcv1] c(2)
    have d: "sr_rcv_inv inp ?W nx (deliver_frames r1)"
      "map_of (srr_buffer (deliver_frames r1)) (srr_base (deliver_frames r1) mod 8) = None"
      "\<And>j. j < srr_base r1 + 8 \<Longrightarrow> sr_received r1 j \<Longrightarrow> sr_received (deliver_frames r1) j"
      by simp_all
    have near: "j < srr_base r1 + 8" if "j < nx" for j
      using that span(2) c(2,4) by (simp add: b1)
    have rec': "sr_received (deliver_frames r1) k" using near [OF k(2)] rec1 by (rule d(3))
    have "srr_base r \<le> srr_base (deliver_frames r1)"
      using deliver_frames_base_mono [of r1] unfolding b1 .
    with snd have snd': "sr_snd_inv inp nx s (deliver_frames r1)"
    proof (rule sr_snd_inv_rcv_mono)
      fix j
      assume "srs_base s \<le> j" "j < nx" "sr_received r j"
      then show "sr_received (deliver_frames r1) j" by (intro d(3) near mono1)
    qed
    have "sr_snd_inv inp nx (sr_process_acks (Some (if a then [k mod 8] else [])) s)
            (deliver_frames r1)"
      using snd' k by (rule sr_process_acks_core) (simp add: rec')
    with d(1,2) show ?thesis unfolding res by (simp add: sr_pair_inv_def)
  qed
qed


lemma sr_timestamp_core:
  assumes inv: "sr_pair_inv inp nx s r" and key: "map_of (srs_window s) k = Some e"
  shows "sr_pair_inv inp nx
           (s\<lparr>srs_window := AList.update k (e\<lparr>we_timestamp := t\<rparr>) (srs_window s)\<rparr>) r"
proof -
  let ?s' = "s\<lparr>srs_window := AList.update k (e\<lparr>we_timestamp := t\<rparr>) (srs_window s)\<rparr>"
  from inv have snd: "sr_snd_inv inp nx s r" by (simp add: sr_pair_inv_def)
  note c = sr_snd_inv_config [OF snd]
  have w: "map_of (AList.update k (e\<lparr>we_timestamp := t\<rparr>) (srs_window s)) m =
      (if m = k then Some (e\<lparr>we_timestamp := t\<rparr>) else map_of (srs_window s) m)" for m
    by (simp add: AList.update_conv')
  have none: "map_of (srs_window ?s') m = None \<longleftrightarrow> map_of (srs_window s) m = None" for m
    using key by (auto simp: AList.update_conv')
  have "sr_snd_inv inp nx ?s' r"
  proof (rule sr_snd_invI)
    show "srs_max_seq_num ?s' = 8" "srs_window_size ?s' \<le> 4" "0 \<le> srs_base ?s'"
      "srs_base ?s' \<le> srr_base r" "srs_base ?s' \<le> nx"
      "nx - srs_base ?s' \<le> max 0 (srs_window_size ?s')"
      using c by simp_all
    show "srs_base ?s' \<le> m \<and> m < nx \<and> we_frame e' = data_frame (m mod 8) (inp ! nat m)"
      if "map_of (srs_window ?s') m = Some e'" for m e'
    proof (cases "m = k")
      case True
      with that have "we_frame e' = we_frame e" by (auto simp: w)
      with sr_snd_inv_key [OF snd key] True show ?thesis by simp
    next
      case False
      with that have "map_of (srs_window s) m = Some e'" by (simp add: w)
      from sr_snd_inv_key [OF snd this] show ?thesis by simp
    qed
    show "\<exists>p. srs_base ?s' \<le> p \<and> p < nx \<and> p mod 8 = a \<and> map_of (srs_window ?s') p = None"
      if "a |\<in>| srs_ack_received ?s'" for a
    proof -
      from that have "a |\<in>| srs_ack_received s" by simp
      from sr_snd_inv_ack [OF snd this] show ?thesis unfolding none by simp
    qed
    show "sr_received r m"
      if "srs_base ?s' \<le> m" "m < nx" "map_of (srs_window ?s') m = None" for m
      using snd that unfolding none by (intro sr_snd_inv_received [of inp nx s r m]) simp_all
  qed
  with inv show ?thesis by (simp add: sr_pair_inv_def)
qed

lemma sr_core_inv_world: "sr_core_inv inp (s, r, w) \<Longrightarrow> sr_core_inv inp (s, r, w')"
  by (simp add: sr_core_inv_def)

lemma sr_retransmit_core:
  assumes inv: "sr_core_inv inp st"
  shows "sr_core_inv inp (selective_retransmit k st)"
proof -
  obtain s r w where st: "st = (s, r, w)" by (cases st) auto
  let ?n = "srs_next_seq_num s"
  from inv st have p: "sr_pair_inv inp ?n s r" and n0: "0 \<le> ?n"
    and buf: "srs_data_buffer s = drop (nat ?n) inp" by (simp_all add: sr_core_inv_def)
  show ?thesis
  proof (cases "map_of (srs_window s) k")
    case None
    with inv show ?thesis by (simp add: st selective_retransmit_def)
  next
    case (Some e)
    let ?w2 = "w\<lparr>clk_pos := Suc (Suc (clk_pos w))\<rparr>"
    let ?e' = "e\<lparr>we_timestamp := clk w (clk_pos w)\<rparr>"
    let ?s2 = "s\<lparr>srs_window := AList.update k ?e' (srs_window s)\<rparr>"
    let ?s3 = "s\<lparr>srs_total_transmissions := srs_total_transmissions s + 1,
                srs_retransmissions := srs_retransmissions s + 1,
                srs_window := AList.update k ?e' (srs_window s),
                srs_individual_timers :=
                  AList.update k (clk w (Suc (clk_pos w))) (srs_individual_timers s)\<rparr>"
    let ?res = "sr_receive_frame (we_frame e) r ?w2"
    have p2: "sr_pair_inv inp ?n ?s2 r" using p Some by (rule sr_timestamp_core)
    have "sr_pair_inv inp ?n ?s3 r = sr_pair_inv inp ?n ?s2 r"
      by (rule sr_pair_inv_snd_cong) simp_all
    with p2 have p3: "sr_pair_inv inp ?n ?s3 r" by simp
    have k3: "map_of (srs_window ?s3) k = Some ?e'" by (simp add: AList.update_conv')
    from sr_transmit_core [OF p3 k3, of ?w2]
    have "sr_pair_inv inp ?n (sr_process_acks (fst ?res) ?s3) (fst (snd ?res))" by simp
    then have "sr_core_inv inp (sr_process_acks (fst ?res) ?s3, fst (snd ?res), snd (snd ?res))"
      using n0 buf by (simp add: sr_core_inv_def)
    then show ?thesis
      unfolding st selective_retransmit_unfold [OF Some] Let_def .
  qed
qed

lemma sr_admit_core:
  assumes inv: "sr_pair_inv inp n s r" and can: "n < srs_base s + srs_window_size s"
    and n: "0 \<le> n" "n < int (length inp)"
    and f: "we_frame e = data_frame (n mod 8) (inp ! nat n)"
  shows "sr_pair_inv inp (n + 1) (s\<lparr>srs_window := AList.update n e (srs_window s)\<rparr>) r"
proof -
  let ?s' = "s\<lparr>srs_window := AList.update n e (srs_window s)\<rparr>"
  let ?W = "srs_window_size s"
  from inv have snd: "sr_snd_inv inp n s r" and rcv: "sr_rcv_inv inp ?W n r"
    and up: "map_of (srr_buffer r) (srr_base r mod 8) = None"
    by (simp_all add: sr_pair_inv_def)
  note c = sr_snd_inv_config [OF snd]
  have w: "map_of (AList.update n e (srs_window s)) m =
      (if m = n then Some e else map_of (srs_window s) m)" for m
    by (simp add: AList.update_conv')
  have snd': "sr_snd_inv inp (n + 1) ?s' r"
  proof (rule sr_snd_invI)
    show "srs_max_seq_num ?s' = 8" "srs_window_size ?s' \<le> 4" "0 \<le> srs_base ?s'"
      "srs_base ?s' \<le> srr_base r" "srs_base ?s' \<le> n + 1"
      "n + 1 - srs_base ?s' \<le> max 0 (srs_window_size ?s')"
      using c can by simp_all
    show "srs_base ?s' \<le> m \<and> m < n + 1 \<and> we_frame e' = data_frame (m mod 8) (inp ! nat m)"
      if "map_of (srs_window ?s') m = Some e'" for m e'
    proof (cases "m = n")
      case True
      with that have "e' = e" by (simp add: w)
      with True f c(5) show ?thesis by simp
    next
      case False
      with that have "map_of (srs_window s) m = Some e'" by (simp add: w)
      from sr_snd_inv_key [OF snd this] show ?thesis by simp
    qed
    show "\<exists>p. srs_base ?s' \<le> p \<and> p < n + 1 \<and> p mod 8 = a \<and> map_of (srs_window ?s') p = None"
      if "a |\<in>| srs_ack_received ?s'" for a
    proof -
      from that have "a |\<in>| srs_ack_received s" by simp
      from sr_snd_inv_ack [OF snd this] obtain p where
        "srs_base s \<le> p" "p < n" "p mod 8 = a" "map_of (srs_window s) p = None" by blast
      then have "srs_base ?s' \<le> p \<and> p < n + 1 \<and> p mod 8 = a \<and>
          map_of (srs_window ?s') p = None" by (simp add: w)
      then show ?thesis ..
    qed
    show "sr_received r m"
      if "srs_base ?s' \<le> m" "m < n + 1" "map_of (srs_window ?s') m = None" for m
    proof -
      from that(3) have "m \<noteq> n" and "map_of (srs_window s) m = None"
        by (simp_all add: w split: if_splits)
      with that(1,2) show ?thesis by (intro sr_snd_inv_received [OF snd]) simp_all
    qed
  qed
  have rcv': "sr_rcv_inv inp ?W (n + 1) r"
  proof (rule sr_rcv_invI)
    show "srr_max_seq_num r = 8" "srr_window_size r = ?W" "0 \<le> srr_base r"
      "srr_received_frames r = take (nat (srr_base r)) inp"
      using rcv by (simp_all add: sr_rcv_inv_def)
    show "srr_base r \<le> n + 1" using rcv by (simp add: sr_rcv_inv_def)
    show "n + 1 \<le> int (length inp)" using n by simp
  next
    fix q d
    assume "map_of (srr_buffer r) q = Some d"
    from sr_rcv_inv_buf [OF rcv this] obtain j where
      "srr_base r \<le> j" "j < srr_base r + ?W" "j < n" "j mod 8 = q" "d = inp ! nat j" by blast
    then have "srr_base r \<le> j \<and> j < srr_base r + ?W \<and> j < n + 1 \<and> j mod 8 = q \<and>
        d = inp ! nat j" by simp
    then show "\<exists>j. srr_base r \<le> j \<and> j < srr_base r + ?W \<and> j < n + 1 \<and> j mod 8 = q \<and>
        d = inp ! nat j" ..
  qed
  from snd' rcv' up show ?thesis by (simp add: sr_pair_inv_def)
qed

lemma sr_send_one_core:
  assumes inv: "sr_core_inv inp st" and can: "sr_can_send (fst st)"
  shows "sr_core_inv inp (sr_send_one st)"
proof -
  obtain s r w where st: "st = (s, r, w)" by (cases st) auto
  let ?n = "srs_next_seq_num s"
  from inv st have p: "sr_pair_inv inp ?n s r" and n0: "0 \<le> ?n"
    and buf: "srs_data_buffer s = drop (nat ?n) inp" by (simp_all add: sr_core_inv_def)
  from p have m: "srs_max_seq_num s = 8" by (simp add: sr_pair_inv_def sr_snd_inv_def)
  from can st have room: "?n < srs_base s + srs_window_size s" and ne: "srs_data_buffer s \<noteq> []"
    by (simp_all add: sr_can_send_def)
  from ne buf have len: "nat ?n < length inp" by simp
  then have nl: "?n < int (length inp)" using n0 by linarith
  have hd: "hd (srs_data_buffer s) = inp ! nat ?n" using len by (simp add: buf hd_drop_conv_nth)
  have tl: "tl (srs_data_buffer s) = drop (nat (?n + 1)) inp"
    using n0 by (simp add: buf drop_Suc tl_drop nat_add_distrib)
  let ?f = "data_frame (?n mod 8) (inp ! nat ?n)"
  let ?e = "\<lparr>we_frame = ?f, we_timestamp = clk w (clk_pos w), we_data = inp ! nat ?n\<rparr>"
  let ?w2 = "w\<lparr>clk_pos := Suc (Suc (clk_pos w))\<rparr>"
  let ?s2 = "s\<lparr>srs_window := AList.update ?n ?e (srs_window s)\<rparr>"
  let ?s3 = "s\<lparr>srs_data_buffer := tl (srs_data_buffer s),
                srs_window := AList.update ?n ?e (srs_window s),
                srs_individual_timers :=
                  AList.update ?n (clk w (Suc (clk_pos w))) (srs_individual_timers s),
                srs_total_transmissions := srs_total_transmissions s + 1\<rparr>"
  let ?res = "sr_receive_frame ?f r ?w2"
  let ?s4 = "sr_process_acks (fst ?res) ?s3"
  have p2: "sr_pair_inv inp (?n + 1) ?s2 r" using p room n0 nl by (rule sr_admit_core) simp
  have "sr_pair_inv inp (?n + 1) ?s3 r = sr_pair_inv inp (?n + 1) ?s2 r"
    by (rule sr_pair_inv_snd_cong) simp_all
  with p2 have p3: "sr_pair_inv inp (?n + 1) ?s3 r" by simp
  have k3: "map_of (srs_window ?s3) ?n = Some ?e" by (simp add: AList.update_conv')
  from sr_transmit_core [OF p3 k3, of ?w2]
  have p4: "sr_pair_inv inp (?n + 1) ?s4 (fst (snd ?res))" by simp
  have "sr_pair_inv inp (?n + 1) (?s4\<lparr>srs_next_seq_num := ?n + 1\<rparr>) (fst (snd ?res))
      = sr_pair_inv inp (?n + 1) ?s4 (fst (snd ?res))"
    by (rule sr_pair_inv_snd_cong) simp_all
  with p4 have "sr_core_inv inp (?s4\<lparr>srs_next_seq_num := ?n + 1\<rparr>, fst (snd ?res), snd (snd ?res))"
    using n0 tl by (simp add: sr_core_inv_def)
  moreover have "sr_send_one (s, r, w) =
      (?s4\<lparr>srs_next_seq_num := ?n + 1\<rparr>, fst (snd ?res), snd (snd ?res))"
    unfolding sr_send_one_unfold Let_def m hd ..
  ultimately show ?thesis by (simp add: st)
qed


lemma sr_slide_step_core:
  assumes inv: "sr_core_inv inp (s, r, w)"
    and ack: "srs_base s mod srs_max_seq_num s |\<in>| srs_ack_received s"
  shows "sr_core_inv inp
           (s\<lparr>srs_ack_received := srs_ack_received s |-| {|srs_base s mod srs_max_seq_num s|},
              srs_base := srs_base s + 1\<rparr>, r, w)"
proof -
  let ?n = "srs_next_seq_num s" and ?b = "srs_base s"
  let ?s' = "s\<lparr>srs_ack_received := srs_ack_received s |-| {|?b mod srs_max_seq_num s|},
              srs_base := ?b + 1\<rparr>"
  from inv have snd: "sr_snd_inv inp ?n s r" and rcv: "sr_rcv_inv inp (srs_window_size s) ?n r"
    and up: "map_of (srr_buffer r) (srr_base r mod 8) = None" and n0: "0 \<le> ?n"
    and buf: "srs_data_buffer s = drop (nat ?n) inp"
    by (simp_all add: sr_core_inv_def sr_pair_inv_def)
  note c = sr_snd_inv_config [OF snd]
  from ack c(1) have "?b mod 8 |\<in>| srs_ack_received s" by simp
  from sr_snd_inv_ack [OF snd this] obtain p where
    p: "?b \<le> p" "p < ?n" "p mod 8 = ?b mod 8" "map_of (srs_window s) p = None" by blast
  from p(1,2) c(2,6) have "\<bar>p - ?b\<bar> < 8" by simp
  with p(3) have pb: "p = ?b" by (rule same_residue_close)
  have bn: "?b < ?n" and gone: "map_of (srs_window s) ?b = None" using p pb by simp_all
  have "sr_received r ?b" using snd _ bn gone by (rule sr_snd_inv_received) simp
  moreover have "\<not> (srr_base r \<le> ?b)"
  proof
    assume "srr_base r \<le> ?b"
    with c(4) have "srr_base r = ?b" by simp
    with \<open>sr_received r ?b\<close> up show False by (simp add: sr_received_def)
  qed
  ultimately have br: "?b < srr_base r" by simp
  have "sr_snd_inv inp ?n ?s' r"
  proof (rule sr_snd_invI)
    show "srs_max_seq_num ?s' = 8" "srs_window_size ?s' \<le> 4" "0 \<le> srs_base ?s'"
      "srs_base ?s' \<le> srr_base r" "srs_base ?s' \<le> ?n"
      "?n - srs_base ?s' \<le> max 0 (srs_window_size ?s')"
      using c bn br by simp_all
    show "srs_base ?s' \<le> m \<and> m < ?n \<and> we_frame e = data_frame (m mod 8) (inp ! nat m)"
      if "map_of (srs_window ?s') m = Some e" for m e
    proof -
      from that have k: "map_of (srs_window s) m = Some e" by simp
      with gone have "m \<noteq> ?b" by auto
      with sr_snd_inv_key [OF snd k] show ?thesis by simp
    qed
    show "\<exists>p. srs_base ?s' \<le> p \<and> p < ?n \<and> p mod 8 = a \<and> map_of (srs_window ?s') p = None"
      if "a |\<in>| srs_ack_received ?s'" for a
    proof -
      from that c(1) have a: "a |\<in>| srs_ack_received s" "a \<noteq> ?b mod 8" by simp_all
      from sr_snd_inv_ack [OF snd a(1)] obtain q where
        q: "?b \<le> q" "q < ?n" "q mod 8 = a" "map_of (srs_window s) q = None" by blast
      from q(3) a(2) have "q \<noteq> ?b" by auto
      with q have "srs_base ?s' \<le> q \<and> q < ?n \<and> q mod 8 = a \<and> map_of (srs_window ?s') q = None"
        by simp
      then show ?thesis ..
    qed
    show "sr_received r m"
      if "srs_base ?s' \<le> m" "m < ?n" "map_of (srs_window ?s') m = None" for m
      using that by (intro sr_snd_inv_received [OF snd]) simp_all
  qed
  with rcv up n0 buf show ?thesis by (simp add: sr_core_inv_def sr_pair_inv_def)
qed

lemma reach_core_inv:
  assumes "sr_reach st0 st" "sr_core_inv inp st0"
  shows "sr_core_inv inp st"
  using assms
proof (induction rule: sr_reach.induct)
  case start
  then show ?case .
next
  case (send st)
  then show ?case by (simp add: sr_send_one_core)
next
  case (retransmit st k)
  then show ?case by (simp add: sr_retransmit_core)
next
  case (clock s r w)
  then show ?case by (simp add: sr_core_inv_def)
next
  case (slide s r w)
  then show ?case by (simp only: sr_slide_step_core)
qed

lemma init_core_inv:
  assumes "ws \<le> 4"
  shows "sr_core_inv ds
           (sr_add_data ds (SelectiveRepeatSender_init ws t), SelectiveRepeatReceiver_init ws, w)"
  using assms
  by (simp add: sr_core_inv_def sr_pair_inv_def sr_snd_inv_def sr_rcv_inv_def sr_add_data_def
      SelectiveRepeatSender_init_def SelectiveRepeatReceiver_init_def)

lemma sr_core_inv_prefix:
  assumes "sr_core_inv inp (s, r, w)"
  shows "srr_received_frames r = take (nat (srr_base r)) inp"
  using assms by (simp add: sr_core_inv_def sr_pair_inv_def sr_rcv_inv_def)

lemma sr_core_inv_complete:
  assumes inv: "sr_core_inv inp (s, r, w)"
    and fin: "srs_window s = []" "srs_data_buffer s = []"
  shows "srr_received_frames r = inp"
proof -
  let ?n = "srs_next_seq_num s"
  from inv have snd: "sr_snd_inv inp ?n s r" and rcv: "sr_rcv_inv inp (srs_window_size s) ?n r"
    and up: "map_of (srr_buffer r) (srr_base r mod 8) = None" and n0: "0 \<le> ?n"
    and buf: "srs_data_buffer s = drop (nat ?n) inp"
    by (simp_all add: sr_core_inv_def sr_pair_inv_def)
  note c = sr_snd_inv_config [OF snd]
  from rcv have rb: "srr_base r \<le> ?n" and nl: "?n \<le> int (length inp)"
    and rf: "srr_received_frames r = take (nat (srr_base r)) inp"
    by (simp_all add: sr_rcv_inv_def)
  from buf fin(2) have "length inp \<le> nat ?n" by simp
  with nl n0 have n: "?n = int (length inp)" by linarith
  have "\<not> srr_base r < ?n"
  proof
    assume less: "srr_base r < ?n"
    have "sr_received r (srr_base r)"
      using snd c(4) less by (rule sr_snd_inv_received) (simp add: fin(1))
    with up show False by (simp add: sr_received_def)
  qed
  with rb n have "srr_base r = int (length inp)" by simp
  with rf show ?thesis by simp
qed

section \<open>Delivery in order and without duplicates\<close>

text \<open>
  C2, as the code has it. The data a receiver has delivered (\<^verbatim>\<open>get_received_data\<close>) is
  a subsequence of the input payload sequence, in the input's order and with every input
  position at most once, whatever the draws and the clock make of the run (losses,
  corruption, lost acknowledgments, retransmissions):
  in Stop-and-Wait after the payloads were sent one by one; in Go-Back-N when
  \<^verbatim>\<open>send_frames\<close> returns, for a sender constructed with a window size of at most 7,
  one less than the size of the sequence space; in Selective Repeat at every observable
  point of the run, and so when \<^verbatim>\<open>send_frames\<close> returns, for a sender and a receiver
  constructed with the same window size of at most 4, half the sequence space. There
  the delivered data is a prefix of the input.
\<close>

theorem delivered_data_is_subsequence:
  assumes "gw \<le> 7" and "ws \<le> 4"
    and "sr_reach (sr_add_data ds3 (SelectiveRepeatSender_init ws t3),
                   SelectiveRepeatReceiver_init ws, w3) (s, r, w)"
  shows "subseq (sw_get_received_data
                   (fst (snd (snd (sw_send_all ds1 (StopAndWaitSender_init t1)
                                     StopAndWaitReceiver_init w1))))) ds1 \<and>
         subseq (gbn_get_received_data
                   (fst (snd (snd (gbn_send_frames (gbn_add_data ds2 (GoBackNSender_init gw t2))
                                     GoBackNReceiver_init w2))))) ds2 \<and>
         prefix (sr_get_received_data r) ds3 \<and> subseq (sr_get_received_data r) ds3"
proof -
  have "sr_core_inv ds3 (s, r, w)"
    using assms(3) init_core_inv [OF assms(2)] by (rule reach_core_inv)
  then have "srr_received_frames r = take (nat (srr_base r)) ds3" by (rule sr_core_inv_prefix)
  then have p: "prefix (sr_get_received_data r) ds3"
    by (simp add: sr_get_received_data_def take_is_prefix)
  then have "subseq (sr_get_received_data r) ds3" by (rule prefix_imp_subseq)
  with p sw_in_order [of ds1 t1 w1] gbn_in_order [OF assms(1), of ds2 t2 w2]
  show ?thesis by (simp add: sw_get_received_data_def gbn_get_received_data_def)
qed

text \<open>C2, witness: a Stop-and-Wait run with a lost acknowledgment, a Go-Back-N run with a
  lost frame, which delivers the first payload only, and the Selective Repeat run above
  after all eight frames were transmitted, the windows being 4.\<close>

theorem delivered_data_is_subsequence_witness:
  "sw_get_received_data (fst (snd sw_lossy_run)) = [''Data1'', ''Data2''] \<and>
   subseq (sw_get_received_data (fst (snd sw_lossy_run))) [''Data1'', ''Data2''] \<and>
   gbn_get_received_data (fst (snd (snd gbn_lossy_run))) = [''A''] \<and>
   subseq (gbn_get_received_data (fst (snd (snd gbn_lossy_run)))) [''A'', ''B'', ''C''] \<and>
   sr_get_received_data (fst (snd sr_wrapped)) = payloads8 \<and>
   prefix (sr_get_received_data (fst (snd sr_wrapped))) payloads8 \<and>
   subseq (sr_get_received_data (fst (snd sr_wrapped))) payloads8"
proof -
  obtain s r w where st: "sr_wrapped = (s, r, w)" by (cases sr_wrapped) auto
  have reach: "sr_reach (sr_add_data payloads8 (SelectiveRepeatSender_init 4 (3 / 2)),
      SelectiveRepeatReceiver_init 4, ack7_lost_world (\<lambda>i. 1 / 2) (\<lambda>i. real i)) (s, r, w)"
    unfolding st [symmetric] sr_wrapped_def sr_start_def
    by (rule reach_send_new [OF reach_iteration [OF sr_reach.start]])
  have vals: "sw_get_received_data (fst (snd sw_lossy_run)) = [''Data1'', ''Data2'']"
    "gbn_get_received_data (fst (snd (snd gbn_lossy_run))) = [''A'']"
    "sr_get_received_data (fst (snd sr_wrapped)) = payloads8"
    by code_simp+
  from delivered_data_is_subsequence [OF _ _ reach, of 4 "[''Data1'', ''Data2'']" 1
      sw_ack_lost_world "[''A'', ''B'', ''C'']" 2 frame1_lost_world]
  have "subseq (sw_get_received_data (fst (snd sw_lossy_run))) [''Data1'', ''Data2''] \<and>
      subseq (gbn_get_received_data (fst (snd (snd gbn_lossy_run)))) [''A'', ''B'', ''C''] \<and>
      prefix (sr_get_received_data r) payloads8 \<and> subseq (sr_get_received_data r) payloads8"
    by (simp add: sw_lossy_run_def gbn_lossy_run_def)
  with vals show ?thesis by (simp add: st)
qed

text \<open>
  C2 as the claim states it, for every run, does not hold: the constructors take any
  window size. With a window of 5 on both sides and the acknowledgments of the first five
  frames lost, the Selective Repeat receiver takes the retransmissions of the first two
  frames for new frames and delivers ten payloads from an input of eight, the first two
  of them twice. With a window of 8 and the acknowledgments of all eight frames lost, the
  Go-Back-N receiver accepts the whole retransmitted window again and delivers every
  payload twice.
\<close>

theorem large_window_delivers_twice:
  "sr_window5_run \<noteq> None \<and>
   sr_get_received_data (fst (snd (the sr_window5_run))) = payloads8 @ [''A'', ''B''] \<and>
   \<not> subseq (sr_get_received_data (fst (snd (the sr_window5_run)))) payloads8 \<and>
   gbn_get_received_data (fst (snd (snd gbn_window8_run))) = payloads8 @ payloads8 \<and>
   \<not> subseq (gbn_get_received_data (fst (snd (snd gbn_window8_run)))) payloads8"
proof -
  have long: "\<not> subseq xs payloads8" if "length xs > 8" for xs :: "string list"
  proof
    assume "subseq xs payloads8"
    then have "length xs \<le> length payloads8" by (rule list_emb_length)
    with that show False by (simp add: payloads8_def)
  qed
  have sr: "sr_window5_run \<noteq> None"
    "sr_get_received_data (fst (snd (the sr_window5_run))) = payloads8 @ [''A'', ''B'']"
    by code_simp+
  have gbn: "gbn_get_received_data (fst (snd (snd gbn_window8_run))) = payloads8 @ payloads8"
    by code_simp
  have "\<not> subseq (payloads8 @ [''A'', ''B'']) payloads8" "\<not> subseq (payloads8 @ payloads8) payloads8"
    by (rule long, simp add: payloads8_def)+
  with sr gbn show ?thesis by simp
qed

end
